theory Spec2Isabelle
  imports Main "HOL-Library.AList" "HOL-Library.Sublist" "HOL-Library.Multiset"
begin

section \<open>Python values and exceptions\<close>

text \<open>
  The exceptions the pipeline can meet. All of them are subclasses of Python's
  \<^verbatim>\<open>Exception\<close>, so an \<^verbatim>\<open>except Exception\<close> handler catches each of them.
  \<open>RateLimited\<close> and \<open>CaptchaDetected\<close> are the two classes of \<^verbatim>\<open>util/scraper.py\<close>.
\<close>

datatype exc =
  KeyError | TypeError | ValueError | AttributeError | JSONDecodeError
  | NetworkXError | RateLimited | CaptchaDetected | OtherException

text \<open>
  The values \<^verbatim>\<open>json.loads\<close> builds: \<^verbatim>\<open>None\<close>, booleans, integers, strings, lists and
  dictionaries with string keys (in insertion order, as Python keeps them). JSON numbers
  with a fraction or an exponent are floats in Python and are outside this model.
\<close>

datatype pyval =
  PNone | PBool bool | PInt int | PStr string
  | PList "pyval list" | PDict "(string \<times> pyval) list"

type_synonym attrs = "(string \<times> pyval) list"

text \<open>\<^verbatim>\<open>d.get(k)\<close>: the value stored under \<open>k\<close>, \<^verbatim>\<open>None\<close> when the key is absent.\<close>

definition dict_get :: "attrs \<Rightarrow> string \<Rightarrow> pyval" where
  "dict_get d k = (case map_of d k of None \<Rightarrow> PNone | Some v \<Rightarrow> v)"

text \<open>\<^verbatim>\<open>d.update(new)\<close>: each item of \<open>new\<close> in turn is stored in \<open>d\<close>; an existing
  key keeps its position and takes the new value, a fresh key goes to the end.\<close>

definition dict_update :: "attrs \<Rightarrow> attrs \<Rightarrow> attrs" where
  "dict_update d new = fold (\<lambda>(k, v). AList.update k v) new d"

text \<open>\<^verbatim>\<open>v[k]\<close> for a string \<open>k\<close>: only a dictionary can be subscripted by a string;
  a missing key raises \<^verbatim>\<open>KeyError\<close>, any other value raises \<^verbatim>\<open>TypeError\<close>.\<close>

definition subscript :: "pyval \<Rightarrow> string \<Rightarrow> exc + pyval" where
  "subscript v k =
     (case v of
        PDict d \<Rightarrow> (case map_of d k of None \<Rightarrow> Inl KeyError | Some x \<Rightarrow> Inr x)
      | _ \<Rightarrow> Inl TypeError)"

text \<open>\<^verbatim>\<open>v.get(k, dflt)\<close>: only a dictionary has the method; every other value
  raises \<^verbatim>\<open>AttributeError\<close>.\<close>

definition get_default :: "pyval \<Rightarrow> string \<Rightarrow> pyval \<Rightarrow> exc + pyval" where
  "get_default v k dflt =
     (case v of
        PDict d \<Rightarrow> Inr (case map_of d k of None \<Rightarrow> dflt | Some x \<Rightarrow> x)
      | _ \<Rightarrow> Inl AttributeError)"

text \<open>\<^verbatim>\<open>for x in v\<close>: a list yields its elements, a string its one-character strings,
  a dictionary its keys; \<^verbatim>\<open>None\<close>, booleans and integers are not iterable.\<close>

fun py_iter :: "pyval \<Rightarrow> exc + pyval list" where
  "py_iter (PList xs) = Inr xs"
| "py_iter (PStr s) = Inr (map (\<lambda>c. PStr [c]) s)"
| "py_iter (PDict d) = Inr (map (\<lambda>kv. PStr (fst kv)) d)"
| "py_iter PNone = Inl TypeError"
| "py_iter (PBool b) = Inl TypeError"
| "py_iter (PInt i) = Inl TypeError"

section \<open>The directed graph (\<^verbatim>\<open>networkx.DiGraph\<close>)\<close>

text \<open>
  Node identifiers are dictionary keys. Python compares keys with \<^verbatim>\<open>==\<close> and
  \<^verbatim>\<open>hash\<close>, for which \<^verbatim>\<open>True\<close> is \<open>1\<close> and \<^verbatim>\<open>False\<close> is \<open>0\<close>, so a boolean is the same
  key as its integer.
\<close>

datatype node_id = IdStr string | IdInt int

text \<open>
  What \<^verbatim>\<open>add_node\<close> and \<^verbatim>\<open>add_edge\<close> do with a value offered as a node: the membership
  test \<^verbatim>\<open>n not in self._node\<close> hashes it (\<^verbatim>\<open>TypeError\<close> for a list or a dictionary),
  and \<^verbatim>\<open>None\<close> is refused with \<^verbatim>\<open>ValueError("None cannot be a node")\<close>.
\<close>

fun node_key :: "pyval \<Rightarrow> exc + node_id" where
  "node_key PNone = Inl ValueError"
| "node_key (PBool b) = Inr (IdInt (if b then 1 else 0))"
| "node_key (PInt i) = Inr (IdInt i)"
| "node_key (PStr s) = Inr (IdStr s)"
| "node_key (PList xs) = Inl TypeError"
| "node_key (PDict d) = Inl TypeError"

text \<open>
  A \<^verbatim>\<open>DiGraph\<close> keeps one attribute dictionary per node and one per ordered pair
  (source, target): \<open>node_attrs\<close> is \<^verbatim>\<open>G._node\<close>, and \<open>edge_attrs\<close> is the adjacency
  \<^verbatim>\<open>G._adj[u][v]\<close> read as one dictionary keyed by the pair. Both are in insertion order.
\<close>

record graph =
  node_attrs :: "(node_id \<times> attrs) list"
  edge_attrs :: "((node_id \<times> node_id) \<times> attrs) list"

definition DiGraph :: graph where
  "DiGraph = \<lparr>node_attrs = [], edge_attrs = []\<rparr>"

definition has_node :: "graph \<Rightarrow> node_id \<Rightarrow> bool" where
  "has_node g k = (k \<in> set (map fst (node_attrs g)))"

definition number_of_nodes :: "graph \<Rightarrow> nat" where
  "number_of_nodes g = length (node_attrs g)"


text \<open>\<^verbatim>\<open>G.nodes[k]\<close> as \<^verbatim>\<open>add_node\<close> reads it: the attribute dictionary of \<open>k\<close>, a new
  empty one when \<open>k\<close> is not a node yet.\<close>

definition node_dict :: "graph \<Rightarrow> node_id \<Rightarrow> attrs" where
  "node_dict g k = (case map_of (node_attrs g) k of None \<Rightarrow> [] | Some d \<Rightarrow> d)"

definition edge_dict :: "graph \<Rightarrow> node_id \<Rightarrow> node_id \<Rightarrow> attrs" where
  "edge_dict g u v = (case map_of (edge_attrs g) (u, v) of None \<Rightarrow> [] | Some d \<Rightarrow> d)"

text \<open>\<^verbatim>\<open>DiGraph.add_node(node_for_adding, **attr)\<close>: the node is created with an empty
  attribute dictionary when it is new, then \<^verbatim>\<open>attr\<close> is merged with \<^verbatim>\<open>update\<close>.\<close>

definition add_node :: "graph \<Rightarrow> pyval \<Rightarrow> attrs \<Rightarrow> exc + graph" where
  "add_node g node_for_adding attr =
     (case node_key node_for_adding of
        Inl e \<Rightarrow> Inl e
      | Inr k \<Rightarrow>
          Inr (g\<lparr>node_attrs :=
                 AList.update k (dict_update (node_dict g k) attr) (node_attrs g)\<rparr>))"

text \<open>The first half of \<^verbatim>\<open>add_edge\<close> for one endpoint: a node that is not in the graph
  is created with no attributes.\<close>

definition ensure_node :: "graph \<Rightarrow> node_id \<Rightarrow> graph" where
  "ensure_node g k =
     (if has_node g k then g else g\<lparr>node_attrs := node_attrs g @ [(k, [])]\<rparr>)"

text \<open>
  \<^verbatim>\<open>DiGraph.add_edge(u_of_edge, v_of_edge, **attr)\<close>. The source endpoint is checked and
  created first, then the target, so a bad target raises after the source has been
  added: the result is the graph as the call leaves it and the exception, if any. The
  edge's dictionary is the existing one of the pair (a new one otherwise), updated
  with \<^verbatim>\<open>attr\<close>.
\<close>

definition add_edge :: "graph \<Rightarrow> pyval \<Rightarrow> pyval \<Rightarrow> attrs \<Rightarrow> graph \<times> exc option" where
  "add_edge g u_of_edge v_of_edge attr =
     (case node_key u_of_edge of
        Inl e \<Rightarrow> (g, Some e)
      | Inr u \<Rightarrow>
          (let g1 = ensure_node g u in
           case node_key v_of_edge of
             Inl e \<Rightarrow> (g1, Some e)
           | Inr v \<Rightarrow>
               (let g2 = ensure_node g1 v in
                (g2\<lparr>edge_attrs :=
                      AList.update (u, v) (dict_update (edge_dict g2 u v) attr)
                        (edge_attrs g2)\<rparr>, None))))"

section \<open>Applying the oracle's delta (\<^verbatim>\<open>main\<close>, \<^verbatim>\<open>run_pipeline\<close>)\<close>

text \<open>A call \<^verbatim>\<open>f(a, **d)\<close> raises \<^verbatim>\<open>TypeError\<close> when a key of \<open>d\<close> names one of the
  positional parameters of \<open>f\<close>.\<close>

definition kw_clash :: "string list \<Rightarrow> attrs \<Rightarrow> bool" where
  "kw_clash params d = (\<exists>p \<in> set params. p \<in> set (map fst d))"

text \<open>The loop body \<^verbatim>\<open>graph.add_node(node["id"], **node)\<close>.\<close>

definition add_node_from :: "graph \<Rightarrow> pyval \<Rightarrow> exc + graph" where
  "add_node_from g node =
     (case subscript node ''id'' of
        Inl e \<Rightarrow> Inl e
      | Inr i \<Rightarrow>
          (case node of
             PDict d \<Rightarrow>
               if kw_clash [''self'', ''node_for_adding''] d then Inl TypeError
               else add_node g i d
           | _ \<Rightarrow> Inl TypeError))"

text \<open>The loop body \<^verbatim>\<open>graph.add_edge(edge["source"], edge["target"], **edge)\<close>.\<close>

definition add_edge_from :: "graph \<Rightarrow> pyval \<Rightarrow> graph \<times> exc option" where
  "add_edge_from g edge =
     (case subscript edge ''source'' of
        Inl e \<Rightarrow> (g, Some e)
      | Inr s \<Rightarrow>
          (case subscript edge ''target'' of
             Inl e \<Rightarrow> (g, Some e)
           | Inr t \<Rightarrow>
               (case edge of
                  PDict d \<Rightarrow>
                    if kw_clash [''self'', ''u_of_edge'', ''v_of_edge''] d
                    then (g, Some TypeError)
                    else add_edge g s t d
                | _ \<Rightarrow> (g, Some TypeError))))"

text \<open>The two \<^verbatim>\<open>for\<close> loops: the graph is mutated in place, so an exception leaves
  it as the entries before the failing one made it.\<close>

fun add_nodes_loop :: "graph \<Rightarrow> pyval list \<Rightarrow> graph \<times> exc option" where
  "add_nodes_loop g [] = (g, None)"
| "add_nodes_loop g (node # ns) =
     (case add_node_from g node of
        Inl e \<Rightarrow> (g, Some e)
      | Inr g' \<Rightarrow> add_nodes_loop g' ns)"

fun add_edges_loop :: "graph \<Rightarrow> pyval list \<Rightarrow> graph \<times> exc option" where
  "add_edges_loop g [] = (g, None)"
| "add_edges_loop g (edge # es) =
     (case add_edge_from g edge of
        (g', Some e) \<Rightarrow> (g', Some e)
      | (g', None) \<Rightarrow> add_edges_loop g' es)"

text \<open>\<^verbatim>\<open>new_data.get(key, [])\<close> followed by the start of the \<^verbatim>\<open>for\<close> over it.\<close>

definition delta_list :: "pyval \<Rightarrow> string \<Rightarrow> exc + pyval list" where
  "delta_list new_data key =
     (case get_default new_data key (PList []) of
        Inl e \<Rightarrow> Inl e
      | Inr v \<Rightarrow> py_iter v)"

text \<open>The part of the \<^verbatim>\<open>try\<close> block after parsing: all nodes, then all edges.\<close>

definition apply_delta :: "graph \<Rightarrow> pyval \<Rightarrow> graph \<times> exc option" where
  "apply_delta g new_data =
     (case delta_list new_data ''nodes'' of
        Inl e \<Rightarrow> (g, Some e)
      | Inr ns \<Rightarrow>
          (case add_nodes_loop g ns of
             (g1, Some e) \<Rightarrow> (g1, Some e)
           | (g1, None) \<Rightarrow>
               (case delta_list new_data ''edges'' of
                  Inl e \<Rightarrow> (g1, Some e)
                | Inr es \<Rightarrow> add_edges_loop g1 es)))"

section \<open>Parsing the oracle's response\<close>

text \<open>
  \<^verbatim>\<open>re.search(r"\{[\s\S]*\}", data)\<close> and \<^verbatim>\<open>match.group(0)\<close>: the class \<^verbatim>\<open>[\s\S]\<close> is every
  character and the star is greedy, so the match runs from the first opening brace to
  the last closing brace after it; there is no match when no closing brace follows the
  first opening one.
\<close>

definition re_search :: "string \<Rightarrow> string option" where
  "re_search data =
     (case dropWhile (\<lambda>c. c \<noteq> CHR ''{'') data of
        [] \<Rightarrow> None
      | b # rest \<Rightarrow>
          if CHR ''}'' \<in> set rest
          then Some (b # rev (dropWhile (\<lambda>c. c \<noteq> CHR ''}'') (rev rest)))
          else None)"

text \<open>
  The first statements of the \<^verbatim>\<open>try\<close> block. \<open>loads\<close> is \<^verbatim>\<open>json.loads\<close>, a function of
  the standard library: it returns the decoded value or raises. \<open>data\<close> is the
  \<^verbatim>\<open>content\<close> of the oracle's message, which the client library types as an optional
  string; \<^verbatim>\<open>re.search\<close> raises \<^verbatim>\<open>TypeError\<close> on \<^verbatim>\<open>None\<close>.
\<close>

definition parse_delta :: "(string \<Rightarrow> exc + pyval) \<Rightarrow> string option \<Rightarrow> exc + pyval" where
  "parse_delta loads data =
     (case data of
        None \<Rightarrow> Inl TypeError
      | Some s \<Rightarrow>
          (case re_search s of
             Some m \<Rightarrow> loads m
           | None \<Rightarrow> loads s))"

text \<open>
  The whole \<^verbatim>\<open>try ... except Exception\<close> statement: the graph after it, and the
  exception the handler caught and printed, if there was one. The handler does not
  restore the graph.
\<close>

definition update_graph ::
  "(string \<Rightarrow> exc + pyval) \<Rightarrow> graph \<Rightarrow> string option \<Rightarrow> graph \<times> exc option" where
  "update_graph loads g data =
     (case parse_delta loads data of
        Inl e \<Rightarrow> (g, Some e)
      | Inr new_data \<Rightarrow> apply_delta g new_data)"

text \<open>The dictionary \<^verbatim>\<open>ask_reasoner\<close> returns: \<^verbatim>\<open>{"status": "success", "data": ...}\<close> or
  \<^verbatim>\<open>{"status": "error", "message": ...}\<close>.\<close>

datatype response = Success "string option" | Error string

text \<open>
  The loop over \<^verbatim>\<open>scraped_results\<close>. \<open>reasoner g markdown_content\<close> stands for
  \<^verbatim>\<open>ask_reasoner(generate_prompt_derive_connection(target, markdown_content, graph))\<close>.
  The second component collects the links whose update raised, with the exception
  (the handler's diagnostic output).
\<close>

fun assemble ::
  "(graph \<Rightarrow> string \<Rightarrow> response) \<Rightarrow> (string \<Rightarrow> exc + pyval) \<Rightarrow> graph \<Rightarrow>
   (string \<times> string) list \<Rightarrow> graph \<times> (string \<times> exc) list" where
  "assemble reasoner loads g [] = (g, [])"
| "assemble reasoner loads g ((link, markdown_content) # rest) =
     (case reasoner g markdown_content of
        Success data \<Rightarrow>
          (case update_graph loads g data of
             (g', None) \<Rightarrow> assemble reasoner loads g' rest
           | (g', Some e) \<Rightarrow>
               (case assemble reasoner loads g' rest of
                  (g'', failed) \<Rightarrow> (g'', (link, e) # failed)))
      | Error message \<Rightarrow> assemble reasoner loads g rest)"

section \<open>Search-results pages (\<^verbatim>\<open>scrape_google_page\<close>)\<close>

text \<open>\<^verbatim>\<open>str(n)\<close> for a natural number.\<close>

function str_nat :: "nat \<Rightarrow> string" where
  "str_nat n =
     (if n < 10 then [''0123456789'' ! n]
      else str_nat (n div 10) @ [''0123456789'' ! (n mod 10)])"
  by pat_completeness auto
termination
  by (relation "measure id") auto

text \<open>\<^verbatim>\<open>target.replace(" ", "+")\<close> and the f-string of the query URL.\<close>

definition google_url :: "string \<Rightarrow> nat \<Rightarrow> string" where
  "google_url target page =
     ''https://www.google.com/search?q='' @ [CHR 0x22]
       @ map (\<lambda>c. if c = CHR '' '' then CHR ''+'' else c) target @ [CHR 0x22]
       @ ''&start='' @ str_nat (page * 10 + 1)"

text \<open>
  An \<^verbatim>\<open>except\<close> clause names a class. Each exception of this model is a class of its
  own with no subclass, so an exception is caught by the clause naming its class.
  The expression \<^verbatim>\<open>A or B\<close> on two classes is \<open>A\<close>: a class object is truthy, and \<^verbatim>\<open>or\<close>
  returns its first truthy operand.
\<close>

definition class_or :: "exc \<Rightarrow> exc \<Rightarrow> exc" where
  "class_or a b = a"

definition caught_by :: "exc \<Rightarrow> exc \<Rightarrow> bool" where
  "caught_by e cls = (e = cls)"

datatype call = SlowScrape string | ScrapeDoNoMd string

text \<open>
  \<^verbatim>\<open>scrape_google_page\<close>. \<open>slow_scrape\<close> is \<^verbatim>\<open>scraper.slow_scrape\<close>, \<open>scrape_do_no_md\<close> the
  scraping API in raw-markup mode, and \<open>extract_links\<close> the \<^verbatim>\<open>BeautifulSoup\<close> parse with
  the comprehension over the result rows, which is the same code in both blocks. The
  result is the list of links and the retrievals that were made, in order.
\<close>

definition scrape_google_page ::
  "(string \<Rightarrow> exc + string) \<Rightarrow> (string \<Rightarrow> exc + string) \<Rightarrow> (string \<Rightarrow> exc + string list) \<Rightarrow>
   string \<Rightarrow> nat \<Rightarrow> string list \<times> call list" where
  "scrape_google_page slow_scrape scrape_do_no_md extract_links target page =
     (let url = google_url target page in
      case (case slow_scrape url of Inl e \<Rightarrow> Inl e | Inr response \<Rightarrow> extract_links response) of
        Inr links \<Rightarrow> (links, [SlowScrape url])
      | Inl e \<Rightarrow>
          if caught_by e (class_or RateLimited CaptchaDetected) then
            (case (case scrape_do_no_md url of
                     Inl e' \<Rightarrow> Inl e'
                   | Inr html_content \<Rightarrow> extract_links html_content) of
               Inr links \<Rightarrow> (links, [SlowScrape url, ScrapeDoNoMd url])
             | Inl e' \<Rightarrow> ([], [SlowScrape url, ScrapeDoNoMd url]))
          else ([], [SlowScrape url]))"

section \<open>The dispatcher (\<^verbatim>\<open>categorize_links\<close>, \<^verbatim>\<open>process_link\<close>, the page loop)\<close>

definition SKIP_DOMAINS :: "string list" where
  "SKIP_DOMAINS = [''linkedin.com'', ''facebook.com'']"

text \<open>
  \<^verbatim>\<open>categorize_links\<close>. \<open>netloc link\<close> is \<^verbatim>\<open>urlparse(link).netloc\<close>, a function of the
  standard library, which raises \<^verbatim>\<open>ValueError\<close> on some malformed links; the function
  has no handler, so the exception leaves it. \<^verbatim>\<open>skip_domain in domain\<close> is the
  substring test.
\<close>

fun categorize_loop ::
  "(string \<Rightarrow> exc + string) \<Rightarrow> string list \<Rightarrow> string list \<Rightarrow> string list \<Rightarrow>
   exc + (string list \<times> string list)" where
  "categorize_loop netloc [] links_to_skip links_to_process =
     Inr (links_to_skip, links_to_process)"
| "categorize_loop netloc (link # links) links_to_skip links_to_process =
     (case netloc link of
        Inl e \<Rightarrow> Inl e
      | Inr domain \<Rightarrow>
          if list_ex (\<lambda>skip_domain. sublist skip_domain domain) SKIP_DOMAINS
          then categorize_loop netloc links (links_to_skip @ [link]) links_to_process
          else categorize_loop netloc links links_to_skip (links_to_process @ [link]))"

definition categorize_links ::
  "(string \<Rightarrow> exc + string) \<Rightarrow> string list \<Rightarrow> exc + (string list \<times> string list)" where
  "categorize_links netloc links = categorize_loop netloc links [] []"

text \<open>The links of a page that are skip-listed: those whose domain contains one of the
  configured domains as a substring.\<close>

definition skip_listed :: "(string \<Rightarrow> exc + string) \<Rightarrow> string \<Rightarrow> bool" where
  "skip_listed netloc link =
     (case netloc link of
        Inl e \<Rightarrow> False
      | Inr domain \<Rightarrow> list_ex (\<lambda>skip_domain. sublist skip_domain domain) SKIP_DOMAINS)"

text \<open>
  \<^verbatim>\<open>process_link\<close>: the fast tier for one link. The result \<open>(link, Inr markdown)\<close> is the
  tuple \<^verbatim>\<open>(link, markdown_content, None)\<close> and \<open>(link, Inl e)\<close> is \<^verbatim>\<open>(link, None, e)\<close>. The
  second component of the state is the list of links handed to
  \<^verbatim>\<open>scraper.quick_scrape\<close> so far.
\<close>

definition process_link ::
  "(string \<Rightarrow> exc + string) \<Rightarrow> (string \<Rightarrow> exc + string) \<Rightarrow> string \<Rightarrow> string list \<Rightarrow>
   (string \<times> (exc + string)) \<times> string list" where
  "process_link quick_scrape purify_html link calls =
     ((link,
       (case quick_scrape link of
          Inl e \<Rightarrow> Inl e
        | Inr html_content \<Rightarrow> purify_html html_content)),
      calls @ [link])"

text \<open>The tasks created for \<^verbatim>\<open>links_to_process\<close> and \<^verbatim>\<open>asyncio.gather\<close>, which returns
  the results in the order of the tasks.\<close>

fun gather ::
  "(string \<Rightarrow> exc + string) \<Rightarrow> (string \<Rightarrow> exc + string) \<Rightarrow> string list \<Rightarrow> string list \<Rightarrow>
   (string \<times> (exc + string)) list \<times> string list" where
  "gather quick_scrape purify_html [] calls = ([], calls)"
| "gather quick_scrape purify_html (link # links) calls =
     (case process_link quick_scrape purify_html link calls of
        (r, calls1) \<Rightarrow>
          (case gather quick_scrape purify_html links calls1 of
             (rs, calls2) \<Rightarrow> (r # rs, calls2)))"

record dispatch =
  scraped_results :: "(string \<times> string) list"
  special_links :: "string list"
  quick_scrape_calls :: "string list"

text \<open>The loop over the results: \<^verbatim>\<open>if error\<close> holds for every exception object.\<close>

fun collect :: "dispatch \<Rightarrow> (string \<times> (exc + string)) list \<Rightarrow> dispatch" where
  "collect st [] = st"
| "collect st ((link, Inl error) # results) =
     collect (st\<lparr>special_links := special_links st @ [link]\<rparr>) results"
| "collect st ((link, Inr markdown_content) # results) =
     collect (st\<lparr>scraped_results := scraped_results st @ [(link, markdown_content)]\<rparr>) results"

text \<open>The body of the loop over the pages, from the links of one page on.\<close>

definition process_page ::
  "(string \<Rightarrow> exc + string) \<Rightarrow> (string \<Rightarrow> exc + string) \<Rightarrow> (string \<Rightarrow> exc + string) \<Rightarrow>
   dispatch \<Rightarrow> string list \<Rightarrow> exc + dispatch" where
  "process_page netloc quick_scrape purify_html st links =
     (case categorize_links netloc links of
        Inl e \<Rightarrow> Inl e
      | Inr (links_to_skip, links_to_process) \<Rightarrow>
          (case gather quick_scrape purify_html links_to_process (quick_scrape_calls st) of
             (results, calls) \<Rightarrow>
               (let st1 = collect (st\<lparr>quick_scrape_calls := calls\<rparr>) results
                in Inr (st1\<lparr>special_links := special_links st1 @ links_to_skip\<rparr>))))"

section \<open>Person selection and associated identifiers\<close>

text \<open>
  \<^verbatim>\<open>target in label\<close> for a string \<open>target\<close>: the substring test on a string, membership
  on a list, key membership on a dictionary; \<^verbatim>\<open>None\<close>, booleans and integers raise
  \<^verbatim>\<open>TypeError\<close> (the argument is not iterable).
\<close>

fun py_in :: "string \<Rightarrow> pyval \<Rightarrow> exc + bool" where
  "py_in target (PStr s) = Inr (sublist target s)"
| "py_in target (PList xs) = Inr (PStr target \<in> set xs)"
| "py_in target (PDict d) = Inr (target \<in> set (map fst d))"
| "py_in target PNone = Inl TypeError"
| "py_in target (PBool b) = Inl TypeError"
| "py_in target (PInt i) = Inl TypeError"

text \<open>
  The comprehension of the person-selection step, over \<^verbatim>\<open>graph.nodes(data=True)\<close> in
  order: \<^verbatim>\<open>and\<close> evaluates the membership test only for a node whose type is
  \<^verbatim>\<open>"person"\<close>; an exception ends the comprehension. No handler encloses it.
\<close>

fun person_nodes :: "string \<Rightarrow> (node_id \<times> attrs) list \<Rightarrow> exc + (node_id \<times> attrs) list" where
  "person_nodes target [] = Inr []"
| "person_nodes target ((node_id, data) # rest) =
     (case (if dict_get data ''type'' = PStr ''person''
            then py_in target (dict_get data ''label'') else Inr False) of
        Inl e \<Rightarrow> Inl e
      | Inr keep \<Rightarrow>
          (case person_nodes target rest of
             Inl e \<Rightarrow> Inl e
           | Inr ps \<Rightarrow> Inr (if keep then (node_id, data) # ps else ps)))"

definition select_persons :: "string \<Rightarrow> graph \<Rightarrow> exc + (node_id \<times> attrs) list" where
  "select_persons target g = person_nodes target (node_attrs g)"

text \<open>
  Elements of a Python set are compared like dictionary keys, so a boolean is its
  integer; lists and dictionaries cannot be hashed.
\<close>

datatype hashable = HNone | HInt int | HStr string

fun py_hash :: "pyval \<Rightarrow> exc + hashable" where
  "py_hash PNone = Inr HNone"
| "py_hash (PBool b) = Inr (HInt (if b then 1 else 0))"
| "py_hash (PInt i) = Inr (HInt i)"
| "py_hash (PStr s) = Inr (HStr s)"
| "py_hash (PList xs) = Inl TypeError"
| "py_hash (PDict d) = Inl TypeError"

text \<open>
  The dictionary \<^verbatim>\<open>associated\<close> with its three sets. A set is kept as the list of its
  elements without repetition, in the order of first insertion; Python leaves the
  order of \<^verbatim>\<open>list(a_set)\<close> open.
\<close>

record associated =
  email :: "hashable list"
  username :: "hashable list"
  phone :: "hashable list"

definition set_add :: "hashable list \<Rightarrow> hashable \<Rightarrow> hashable list" where
  "set_add s x = (if x \<in> set s then s else s @ [x])"

text \<open>\<^verbatim>\<open>associated[t].add(label)\<close> for a key \<open>t\<close> that is in the dictionary, that is one
  of its three strings.\<close>

definition associated_add :: "associated \<Rightarrow> pyval \<Rightarrow> pyval \<Rightarrow> exc + associated" where
  "associated_add a t label =
     (case py_hash label of
        Inl e \<Rightarrow> Inl e
      | Inr x \<Rightarrow>
          Inr (if t = PStr ''email'' then a\<lparr>email := set_add (email a) x\<rparr>
               else if t = PStr ''username'' then a\<lparr>username := set_add (username a) x\<rparr>
               else a\<lparr>phone := set_add (phone a) x\<rparr>))"

text \<open>\<^verbatim>\<open>t in associated\<close>: membership in a dictionary hashes \<open>t\<close>.\<close>

definition in_associated :: "pyval \<Rightarrow> exc + bool" where
  "in_associated t =
     (case py_hash t of
        Inl e \<Rightarrow> Inl e
      | Inr h \<Rightarrow> Inr (h \<in> {HStr ''email'', HStr ''username'', HStr ''phone''}))"

text \<open>\<^verbatim>\<open>graph.neighbors(n)\<close>: the successors of \<open>n\<close> in the order their edges were first
  added; \<^verbatim>\<open>NetworkXError\<close> when \<open>n\<close> is not in the graph.\<close>

definition neighbors :: "graph \<Rightarrow> node_id \<Rightarrow> exc + node_id list" where
  "neighbors g n =
     (if has_node g n
      then Inr (map (\<lambda>e. snd (fst e)) (filter (\<lambda>e. fst (fst e) = n) (edge_attrs g)))
      else Inl NetworkXError)"

text \<open>\<^verbatim>\<open>graph.nodes[n]\<close>: \<^verbatim>\<open>KeyError\<close> when \<open>n\<close> is not in the graph.\<close>

definition node_data_of :: "graph \<Rightarrow> node_id \<Rightarrow> exc + attrs" where
  "node_data_of g n = (case map_of (node_attrs g) n of None \<Rightarrow> Inl KeyError | Some d \<Rightarrow> Inr d)"

text \<open>The inner loop of \<^verbatim>\<open>get_person_details\<close>, over the neighbours of a social-media
  node: membership in the tuple \<^verbatim>\<open>("email", "username")\<close> compares with \<^verbatim>\<open>==\<close>.\<close>

fun sm_loop :: "graph \<Rightarrow> associated \<Rightarrow> node_id list \<Rightarrow> exc + associated" where
  "sm_loop g a [] = Inr a"
| "sm_loop g a (sm_neighbor # rest) =
     (case node_data_of g sm_neighbor of
        Inl e \<Rightarrow> Inl e
      | Inr sm_data \<Rightarrow>
          (let sm_type = dict_get sm_data ''type'' in
           if sm_type = PStr ''email'' \<or> sm_type = PStr ''username'' then
             (case associated_add a sm_type (dict_get sm_data ''label'') of
                Inl e \<Rightarrow> Inl e
              | Inr a' \<Rightarrow> sm_loop g a' rest)
           else sm_loop g a rest))"

text \<open>The outer loop, over the neighbours of the selected node.\<close>

fun neighbor_loop :: "graph \<Rightarrow> associated \<Rightarrow> node_id list \<Rightarrow> exc + associated" where
  "neighbor_loop g a [] = Inr a"
| "neighbor_loop g a (neighbor # rest) =
     (case node_data_of g neighbor of
        Inl e \<Rightarrow> Inl e
      | Inr node_data \<Rightarrow>
          (let node_type = dict_get node_data ''type'' in
           case in_associated node_type of
             Inl e \<Rightarrow> Inl e
           | Inr direct \<Rightarrow>
               (case (if direct
                      then associated_add a node_type (dict_get node_data ''label'')
                      else Inr a) of
                  Inl e \<Rightarrow> Inl e
                | Inr a1 \<Rightarrow>
                    (case (if node_type = PStr ''social_media''
                           then (case neighbors g neighbor of
                                   Inl e \<Rightarrow> Inl e
                                 | Inr sm_neighbors \<Rightarrow> sm_loop g a1 sm_neighbors)
                           else Inr a1) of
                       Inl e \<Rightarrow> Inl e
                     | Inr a2 \<Rightarrow> neighbor_loop g a2 rest))))"

text \<open>
  \<^verbatim>\<open>get_person_details\<close> up to the three lists of identifiers; the lookups in the
  external services that follow take these lists and do not change them.
\<close>

definition get_person_details :: "graph \<Rightarrow> node_id \<Rightarrow> exc + associated" where
  "get_person_details g selected_node_id =
     (case neighbors g selected_node_id of
        Inl e \<Rightarrow> Inl e
      | Inr ns \<Rightarrow> neighbor_loop g \<lparr>email = [], username = [], phone = []\<rparr> ns)"

section \<open>Dictionaries and association lists\<close>

lemma length_update_alist:
  "length (AList.update k v al) = (if k \<in> fst ` set al then length al else Suc (length al))"
  by (induction al) auto

lemma map_of_dict_update:
  "distinct (map fst new) \<Longrightarrow>
   map_of (dict_update d new) a = (case map_of new a of Some v \<Rightarrow> Some v | None \<Rightarrow> map_of d a)"
  unfolding dict_update_def
proof (induction new arbitrary: d)
  case Nil
  then show ?case by simp
next
  case (Cons kv new)
  obtain k v where kv: "kv = (k, v)" by (cases kv)
  from Cons.prems kv have d: "distinct (map fst new)" and nk: "map_of new k = None"
    by (auto simp: map_of_eq_None_iff)
  show ?case
    using Cons.IH [OF d, of "AList.update k v d"] nk kv
    by (auto simp: update_conv' split: option.splits)
qed

lemma dict_get_dict_update:
  assumes "distinct (map fst new)"
  shows "dict_get (dict_update d new) a =
           (if a \<in> fst ` set new then dict_get new a else dict_get d a)"
proof (cases "map_of new a")
  case None
  then have "a \<notin> fst ` set new" by (simp add: map_of_eq_None_iff)
  with None show ?thesis by (simp add: dict_get_def map_of_dict_update [OF assms])
next
  case (Some v)
  then have "a \<in> fst ` set new" by (metis map_of_eq_None_iff option.distinct(1))
  with Some show ?thesis by (simp add: dict_get_def map_of_dict_update [OF assms])
qed

lemma update_fresh_append:
  "k \<notin> fst ` set al \<Longrightarrow> AList.update k v al = al @ [(k, v)]"
  by (induction al) auto

lemma dict_update_append:
  "distinct (map fst (d @ new)) \<Longrightarrow> dict_update d new = d @ new"
  unfolding dict_update_def
proof (induction new arbitrary: d)
  case Nil
  then show ?case by simp
next
  case (Cons kv new)
  obtain k v where kv: "kv = (k, v)" by (cases kv)
  from Cons.prems kv have fresh: "k \<notin> fst ` set d" by auto
  from Cons.prems kv have "distinct (map fst ((d @ [(k, v)]) @ new))" by auto
  from Cons.IH [OF this] show ?case
    using kv fresh by (simp add: update_fresh_append)
qed

lemma map_of_update_other:
  "k' \<noteq> k \<Longrightarrow> map_of (AList.update k v al) k' = map_of al k'"
  by (simp add: update_conv')

lemma map_of_update_same:
  "map_of (AList.update k v al) k = Some v"
  by (simp add: update_conv')

lemma add_node_from_dict:
  assumes "map_of d ''id'' = Some i" and "node_key i = Inr k"
    and "\<not> kw_clash [''self'', ''node_for_adding''] d"
  shows "add_node_from g (PDict d) =
           Inr (g\<lparr>node_attrs := AList.update k (dict_update (node_dict g k) d) (node_attrs g)\<rparr>)"
  using assms by (simp add: add_node_from_def subscript_def add_node_def)

lemma has_node_iff: "has_node g k \<longleftrightarrow> map_of (node_attrs g) k \<noteq> None"
  by (simp add: has_node_def map_of_eq_None_iff)

section \<open>Merging a node by its id\<close>

text \<open>
  Claim C4. A delta node is a dictionary with an \<^verbatim>\<open>id\<close> that can be a node and with no key
  that names a parameter of \<^verbatim>\<open>add_node\<close>. Applying it succeeds. When its id is already a
  node of the graph, the number of nodes stays the same and the node's attributes are
  the existing ones overwritten by those of the delta node, key by key; when the id is
  fresh, the graph has one node more, the new node, whose attributes are the delta
  node's. The other nodes and the edges are untouched.
\<close>

theorem add_node_collision_or_fresh:
  assumes "distinct (map fst d)"
    and "map_of d ''id'' = Some i" and "node_key i = Inr k"
    and "\<not> kw_clash [''self'', ''node_for_adding''] d"
  shows "\<exists>g'. add_node_from g (PDict d) = Inr g'
           \<and> (has_node g k \<longrightarrow>
                 number_of_nodes g' = number_of_nodes g
                 \<and> (\<forall>a. dict_get (node_dict g' k) a =
                          (if a \<in> fst ` set d then dict_get d a else dict_get (node_dict g k) a)))
           \<and> (\<not> has_node g k \<longrightarrow>
                 number_of_nodes g' = Suc (number_of_nodes g) \<and> has_node g' k
                 \<and> node_dict g' k = d)
           \<and> (\<forall>k'. k' \<noteq> k \<longrightarrow> map_of (node_attrs g') k' = map_of (node_attrs g) k')
           \<and> edge_attrs g' = edge_attrs g"
proof -
  let ?g' = "g\<lparr>node_attrs := AList.update k (dict_update (node_dict g k) d) (node_attrs g)\<rparr>"
  have run: "add_node_from g (PDict d) = Inr ?g'"
    using assms(2-4) by (rule add_node_from_dict)
  have nd: "node_dict ?g' k = dict_update (node_dict g k) d"
    by (simp add: node_dict_def map_of_update_same)
  have old: "has_node g k \<longrightarrow>
      number_of_nodes ?g' = number_of_nodes g
      \<and> (\<forall>a. dict_get (node_dict ?g' k) a =
               (if a \<in> fst ` set d then dict_get d a else dict_get (node_dict g k) a))"
    using dict_get_dict_update [OF assms(1)]
    by (simp add: nd number_of_nodes_def has_node_def length_update_alist)
  have fresh: "\<not> has_node g k \<longrightarrow>
      number_of_nodes ?g' = Suc (number_of_nodes g) \<and> has_node ?g' k \<and> node_dict ?g' k = d"
  proof
    assume n: "\<not> has_node g k"
    then have "node_dict g k = []"
      by (simp add: node_dict_def has_node_iff)
    moreover have "dict_update [] d = d"
      using dict_update_append [of "[]" d] assms(1) by simp
    ultimately have "node_dict ?g' k = d"
      using nd by simp
    moreover have "number_of_nodes ?g' = Suc (number_of_nodes g)"
      using n by (simp add: number_of_nodes_def has_node_def length_update_alist)
    moreover have "has_node ?g' k"
      by (simp add: has_node_iff map_of_update_same)
    ultimately show "number_of_nodes ?g' = Suc (number_of_nodes g) \<and> has_node ?g' k
        \<and> node_dict ?g' k = d" by simp
  qed
  have others: "\<forall>k'. k' \<noteq> k \<longrightarrow> map_of (node_attrs ?g') k' = map_of (node_attrs g) k'"
    by (simp add: map_of_update_other)
  have edges: "edge_attrs ?g' = edge_attrs g" by simp
  from run old fresh others edges show ?thesis by blast
qed

theorem add_node_collision_or_fresh_witness:
  "distinct (map fst [(''id'', PStr ''p1''), (''label'', PStr ''John Doe'')])
   \<and> map_of [(''id'', PStr ''p1''), (''label'', PStr ''John Doe'')] ''id'' = Some (PStr ''p1'')
   \<and> node_key (PStr ''p1'') = Inr (IdStr ''p1'')
   \<and> \<not> kw_clash [''self'', ''node_for_adding'']
          [(''id'', PStr ''p1''), (''label'', PStr ''John Doe'')]
   \<and> has_node \<lparr>node_attrs = [(IdStr ''p1'', [(''id'', PStr ''p1''), (''type'', PStr ''person'')])],
                edge_attrs = []\<rparr> (IdStr ''p1'')
   \<and> (\<exists>g'. add_node_from
               \<lparr>node_attrs = [(IdStr ''p1'', [(''id'', PStr ''p1''), (''type'', PStr ''person'')])],
                edge_attrs = []\<rparr>
               (PDict [(''id'', PStr ''p1''), (''label'', PStr ''John Doe'')]) = Inr g'
            \<and> number_of_nodes g' = 1
            \<and> dict_get (node_dict g' (IdStr ''p1'')) ''type'' = PStr ''person''
            \<and> dict_get (node_dict g' (IdStr ''p1'')) ''label'' = PStr ''John Doe'')"
proof -
  let ?d = "[(''id'', PStr ''p1''), (''label'', PStr ''John Doe'')]"
  let ?g = "\<lparr>node_attrs = [(IdStr ''p1'', [(''id'', PStr ''p1''), (''type'', PStr ''person'')])],
             edge_attrs = []\<rparr>"
  have h1: "distinct (map fst ?d)" by simp
  have h2: "map_of ?d ''id'' = Some (PStr ''p1'')" by simp
  have h3: "node_key (PStr ''p1'') = Inr (IdStr ''p1'')" by simp
  have h4: "\<not> kw_clash [''self'', ''node_for_adding''] ?d" by (simp add: kw_clash_def)
  have h5: "has_node ?g (IdStr ''p1'')" by (simp add: has_node_def)
  from add_node_collision_or_fresh [OF h1 h2 h3 h4, of ?g] h5
  obtain g' where run: "add_node_from ?g (PDict ?d) = Inr g'"
    and count: "number_of_nodes g' = number_of_nodes ?g"
    and merged: "\<And>a. dict_get (node_dict g' (IdStr ''p1'')) a =
                   (if a \<in> fst ` set ?d then dict_get ?d a
                    else dict_get (node_dict ?g (IdStr ''p1'')) a)"
    by blast
  have "number_of_nodes g' = 1"
    using count by (simp add: number_of_nodes_def)
  moreover have "dict_get (node_dict g' (IdStr ''p1'')) ''type'' = PStr ''person''"
    using merged [of "''type''"] by (simp add: node_dict_def dict_get_def)
  moreover have "dict_get (node_dict g' (IdStr ''p1'')) ''label'' = PStr ''John Doe''"
    using merged [of "''label''"] by (simp add: dict_get_def)
  ultimately show ?thesis
    using h1 h2 h3 h4 h5 run by blast
qed

section \<open>The annotation of a merged node\<close>

lemma node_dict_add_node_from:
  assumes "map_of d ''id'' = Some i" and "node_key i = Inr k"
    and "\<not> kw_clash [''self'', ''node_for_adding''] d"
  shows "\<exists>g'. add_node_from g (PDict d) = Inr g'
           \<and> node_dict g' k = dict_update (node_dict g k) d"
  using add_node_from_dict [OF assms, of g]
  by (simp add: node_dict_def map_of_update_same)

text \<open>
  Claim C3, as stated, fails: a node \<open>p1\<close> annotated \<open>old\<close> that receives a delta node
  \<open>p1\<close> annotated \<open>new\<close> ends up annotated \<open>new\<close>, which does not contain \<open>old\<close>.
\<close>

theorem add_node_collision_replaces_comment_counterexample:
  "add_node_from
     \<lparr>node_attrs = [(IdStr ''p1'', [(''id'', PStr ''p1''), (''_comment'', PStr ''old'')])],
      edge_attrs = []\<rparr>
     (PDict [(''id'', PStr ''p1''), (''_comment'', PStr ''new'')])
   = Inr \<lparr>node_attrs = [(IdStr ''p1'', [(''id'', PStr ''p1''), (''_comment'', PStr ''new'')])],
          edge_attrs = []\<rparr>
   \<and> \<not> sublist ''old'' ''new''"
  by (simp add: add_node_from_def subscript_def kw_clash_def add_node_def node_dict_def
      dict_update_def sublist_code)

text \<open>
  Claim C3, amended. When a delta node's id is the id of an existing node, the merge is
  \<^verbatim>\<open>dict.update\<close>: every attribute of the delta node takes the delta node's value, so its
  \<^verbatim>\<open>_comment\<close> replaces the existing annotation, and every attribute the delta node does
  not mention keeps its existing value.
\<close>

theorem add_node_collision_replaces_comment:
  assumes "distinct (map fst d)"
    and "map_of d ''id'' = Some i" and "node_key i = Inr k"
    and "\<not> kw_clash [''self'', ''node_for_adding''] d"
    and "has_node g k"
    and "map_of d ''_comment'' = Some b"
  shows "\<exists>g'. add_node_from g (PDict d) = Inr g'
           \<and> dict_get (node_dict g' k) ''_comment'' = b
           \<and> (\<forall>a \<in> fst ` set d. dict_get (node_dict g' k) a = dict_get d a)
           \<and> (\<forall>a. a \<notin> fst ` set d \<longrightarrow>
                  dict_get (node_dict g' k) a = dict_get (node_dict g k) a)"
proof -
  from node_dict_add_node_from [OF assms(2-4), of g]
  obtain g' where run: "add_node_from g (PDict d) = Inr g'"
    and nd: "node_dict g' k = dict_update (node_dict g k) d"
    by blast
  have present: "\<forall>a \<in> fst ` set d. dict_get (node_dict g' k) a = dict_get d a"
    by (simp add: nd dict_get_dict_update [OF assms(1)])
  have "''_comment'' \<in> fst ` set d"
    using assms(6) by (metis map_of_eq_None_iff option.distinct(1))
  with present have "dict_get (node_dict g' k) ''_comment'' = dict_get d ''_comment''"
    by (rule bspec)
  then have comment: "dict_get (node_dict g' k) ''_comment'' = b"
    using assms(6) by (simp add: dict_get_def)
  have absent: "\<forall>a. a \<notin> fst ` set d \<longrightarrow>
      dict_get (node_dict g' k) a = dict_get (node_dict g k) a"
    by (simp add: nd dict_get_dict_update [OF assms(1)])
  from run comment present absent show ?thesis by blast
qed

theorem add_node_collision_replaces_comment_witness:
  "\<exists>g'. add_node_from
           \<lparr>node_attrs = [(IdStr ''p1'', [(''id'', PStr ''p1''), (''_comment'', PStr ''old''),
                           (''type'', PStr ''person''), (''label'', PStr ''J. Doe'')])],
            edge_attrs = []\<rparr>
           (PDict [(''id'', PStr ''p1''), (''_comment'', PStr ''new''),
                   (''label'', PStr ''John Doe'')]) = Inr g'
        \<and> dict_get (node_dict g' (IdStr ''p1'')) ''_comment'' = PStr ''new''
        \<and> dict_get (node_dict g' (IdStr ''p1'')) ''label'' = PStr ''John Doe''
        \<and> dict_get (node_dict g' (IdStr ''p1'')) ''type'' = PStr ''person''"
proof -
  let ?d = "[(''id'', PStr ''p1''), (''_comment'', PStr ''new''), (''label'', PStr ''John Doe'')]"
  let ?g = "\<lparr>node_attrs = [(IdStr ''p1'', [(''id'', PStr ''p1''), (''_comment'', PStr ''old''),
                             (''type'', PStr ''person''), (''label'', PStr ''J. Doe'')])],
             edge_attrs = []\<rparr>"
  have h1: "distinct (map fst ?d)" by simp
  have h2: "map_of ?d ''id'' = Some (PStr ''p1'')" by simp
  have h3: "node_key (PStr ''p1'') = Inr (IdStr ''p1'')" by simp
  have h4: "\<not> kw_clash [''self'', ''node_for_adding''] ?d" by (simp add: kw_clash_def)
  have h5: "has_node ?g (IdStr ''p1'')" by (simp add: has_node_def)
  have h6: "map_of ?d ''_comment'' = Some (PStr ''new'')" by simp
  from add_node_collision_replaces_comment [OF h1 h2 h3 h4 h5 h6]
  obtain g' where run: "add_node_from ?g (PDict ?d) = Inr g'"
    and c: "dict_get (node_dict g' (IdStr ''p1'')) ''_comment'' = PStr ''new''"
    and take: "\<And>a. a \<in> fst ` set ?d \<Longrightarrow>
                 dict_get (node_dict g' (IdStr ''p1'')) a = dict_get ?d a"
    and keep: "\<And>a. a \<notin> fst ` set ?d \<Longrightarrow>
                 dict_get (node_dict g' (IdStr ''p1'')) a = dict_get (node_dict ?g (IdStr ''p1'')) a"
    by blast
  have "dict_get (node_dict g' (IdStr ''p1'')) ''label'' = PStr ''John Doe''"
    using take [of "''label''"] by (simp add: dict_get_def)
  moreover have "dict_get (node_dict g' (IdStr ''p1'')) ''type'' = PStr ''person''"
    using keep [of "''type''"] by (simp add: node_dict_def dict_get_def)
  ultimately show ?thesis using run c by blast
qed

section \<open>Edges between the same pair of nodes\<close>









section \<open>The empty delta\<close>

lemma re_search_plain:
  "re_search ''{\"nodes\":[],\"edges\":[]}'' = Some ''{\"nodes\":[],\"edges\":[]}''"
  by (simp add: re_search_def)

lemma re_search_prose:
  "re_search ''Sure! Here is the JSON: {\"nodes\":[],\"edges\":[]}''
     = Some ''{\"nodes\":[],\"edges\":[]}''"
  by (simp add: re_search_def)

lemma apply_delta_empty_lists:
  assumes "map_of d ''nodes'' = Some (PList [])" and "map_of d ''edges'' = Some (PList [])"
  shows "apply_delta g (PDict d) = (g, None)"
  using assms by (simp add: apply_delta_def delta_list_def get_default_def)

lemma dropWhile_until:
  "c \<notin> set xs \<Longrightarrow> dropWhile (\<lambda>x. x \<noteq> c) (xs @ c # ys) = c # ys"
  by (induction xs) auto

lemma re_search_embedded:
  assumes "CHR ''{'' \<notin> set before" and "CHR ''}'' \<notin> set after"
  shows "re_search (before @ CHR ''{'' # body @ CHR ''}'' # after)
           = Some (CHR ''{'' # body @ [CHR ''}''])"
proof -
  have front: "dropWhile (\<lambda>c. c \<noteq> CHR ''{'') (before @ CHR ''{'' # body @ CHR ''}'' # after)
                 = CHR ''{'' # body @ CHR ''}'' # after"
    using assms(1) by (rule dropWhile_until)
  have "dropWhile (\<lambda>c. c \<noteq> CHR ''}'') (rev after @ CHR ''}'' # rev body) = CHR ''}'' # rev body"
    using assms(2) dropWhile_until [of "CHR ''}''" "rev after" "rev body"] by simp
  then have trail: "rev (dropWhile (\<lambda>c. c \<noteq> CHR ''}'') (rev (body @ CHR ''}'' # after)))
                = body @ [CHR ''}'']"
    by simp
  show ?thesis
    unfolding re_search_def front using trail by simp
qed

lemma parse_delta_embedded:
  assumes "CHR ''{'' \<notin> set before" and "CHR ''}'' \<notin> set after"
  shows "parse_delta decoder (Some (before @ CHR ''{'' # body @ CHR ''}'' # after))
           = decoder (CHR ''{'' # body @ [CHR ''}''])"
  by (simp add: parse_delta_def re_search_embedded [OF assms])

text \<open>
  Claim C5, as stated, fails for prose that holds a brace: in the response
  \<^verbatim>\<open>{"nodes":[],"edges":[]} I wrote {} for an empty graph.\<close> the search runs from the first
  opening brace to the last closing brace and extracts
  \<^verbatim>\<open>{"nodes":[],"edges":[]} I wrote {}\<close>, which is not the embedded object; a decoder that
  rejects this text, as \<^verbatim>\<open>json.loads\<close> does, raises, and the handler reports the failure.
\<close>

theorem brace_in_prose_counterexample:
  "re_search ''{\"nodes\":[],\"edges\":[]} I wrote {} for an empty graph.''
     = Some ''{\"nodes\":[],\"edges\":[]} I wrote {}''
   \<and> update_graph
       (\<lambda>s. if s = ''{\"nodes\":[],\"edges\":[]}''
            then Inr (PDict [(''nodes'', PList []), (''edges'', PList [])])
            else Inl JSONDecodeError)
       \<lparr>node_attrs = [(IdStr ''p1'', [(''id'', PStr ''p1'')])], edge_attrs = []\<rparr>
       (Some ''{\"nodes\":[],\"edges\":[]} I wrote {} for an empty graph.'')
     = (\<lparr>node_attrs = [(IdStr ''p1'', [(''id'', PStr ''p1'')])], edge_attrs = []\<rparr>,
        Some JSONDecodeError)"
  by (simp add: update_graph_def parse_delta_def re_search_def)

text \<open>
  Claim C5, amended. Applying the empty delta \<^verbatim>\<open>{"nodes": [], "edges": []}\<close> leaves the graph
  as it is and raises nothing. For a decoder \<open>loads\<close> that decodes the text of the empty
  delta to that object, the same holds for the response that is exactly this text, for
  the response \<^verbatim>\<open>Sure! Here is the JSON: {"nodes":[],"edges":[]}\<close>, and for every response
  that wraps the text in prose with no opening brace before it and no closing brace
  after it. In such a response the search extracts exactly the embedded object: for
  every decoder and every embedded text in braces, parsing the response is decoding
  the embedded text.
\<close>

theorem empty_delta_is_noop:
  assumes "loads ''{\"nodes\":[],\"edges\":[]}''
             = Inr (PDict [(''nodes'', PList []), (''edges'', PList [])])"
    and "CHR ''{'' \<notin> set before" and "CHR ''}'' \<notin> set after"
  shows "apply_delta g (PDict [(''nodes'', PList []), (''edges'', PList [])]) = (g, None)
         \<and> update_graph loads g (Some ''{\"nodes\":[],\"edges\":[]}'') = (g, None)
         \<and> update_graph loads g (Some ''Sure! Here is the JSON: {\"nodes\":[],\"edges\":[]}'')
             = (g, None)
         \<and> re_search (before @ ''{\"nodes\":[],\"edges\":[]}'' @ after)
             = Some ''{\"nodes\":[],\"edges\":[]}''
         \<and> update_graph loads g (Some (before @ ''{\"nodes\":[],\"edges\":[]}'' @ after))
             = (g, None)
         \<and> parse_delta decoder (Some (before @ CHR ''{'' # body @ CHR ''}'' # after))
             = decoder (CHR ''{'' # body @ [CHR ''}''])"
proof -
  have a: "apply_delta g (PDict [(''nodes'', PList []), (''edges'', PList [])]) = (g, None)"
    by (rule apply_delta_empty_lists) simp_all
  have b: "update_graph loads g (Some ''{\"nodes\":[],\"edges\":[]}'') = (g, None)"
    using assms(1) a by (simp add: update_graph_def parse_delta_def re_search_plain)
  have c: "update_graph loads g (Some ''Sure! Here is the JSON: {\"nodes\":[],\"edges\":[]}'')
             = (g, None)"
    using assms(1) a by (simp add: update_graph_def parse_delta_def re_search_prose)
  have d: "re_search (before @ ''{\"nodes\":[],\"edges\":[]}'' @ after)
             = Some ''{\"nodes\":[],\"edges\":[]}''"
    using re_search_embedded [OF assms(2,3), of "''\"nodes\":[],\"edges\":[]''"] by simp
  have e: "update_graph loads g (Some (before @ ''{\"nodes\":[],\"edges\":[]}'' @ after))
             = (g, None)"
    using assms(1) a d by (simp add: update_graph_def parse_delta_def)
  have f: "parse_delta decoder (Some (before @ CHR ''{'' # body @ CHR ''}'' # after))
             = decoder (CHR ''{'' # body @ [CHR ''}''])"
    using assms(2,3) by (rule parse_delta_embedded)
  from a b c d e f show ?thesis by simp
qed

theorem empty_delta_is_noop_witness:
  "update_graph
     (\<lambda>s. if s = ''{\"nodes\":[],\"edges\":[]}''
          then Inr (PDict [(''nodes'', PList []), (''edges'', PList [])])
          else Inl JSONDecodeError)
     \<lparr>node_attrs = [(IdStr ''p1'', [(''id'', PStr ''p1'')])], edge_attrs = []\<rparr>
     (Some (''Sure! Here is the JSON: '' @ ''{\"nodes\":[],\"edges\":[]}'' @ '' Hope this helps.''))
   = (\<lparr>node_attrs = [(IdStr ''p1'', [(''id'', PStr ''p1'')])], edge_attrs = []\<rparr>, None)"
proof -
  let ?loads = "\<lambda>s. if s = ''{\"nodes\":[],\"edges\":[]}''
          then Inr (PDict [(''nodes'', PList []), (''edges'', PList [])])
          else Inl JSONDecodeError"
  have h1: "?loads ''{\"nodes\":[],\"edges\":[]}''
              = Inr (PDict [(''nodes'', PList []), (''edges'', PList [])])" by simp
  have h2: "CHR ''{'' \<notin> set ''Sure! Here is the JSON: ''" by simp
  have h3: "CHR ''}'' \<notin> set '' Hope this helps.''" by simp
  note all = empty_delta_is_noop
    [where loads = ?loads and before = "''Sure! Here is the JSON: ''"
       and after = "'' Hope this helps.''", OF h1 h2 h3]
  from all show ?thesis
    by (rule conjunct1 [OF conjunct2 [OF conjunct2 [OF conjunct2 [OF conjunct2]]]])
qed

section \<open>Malformed responses\<close>

lemma add_nodes_loop_stops:
  "add_nodes_loop g pre = (g1, None) \<Longrightarrow> add_node_from g1 bad = Inl e \<Longrightarrow>
   add_nodes_loop g (pre @ bad # post) = (g1, Some e)"
proof (induction pre arbitrary: g)
  case Nil
  then show ?case by simp
next
  case (Cons n pre)
  then show ?case by (cases "add_node_from g n") auto
qed

lemma add_edges_loop_stops:
  "add_edges_loop g pre = (g1, None) \<Longrightarrow> add_edge_from g1 bad = (g2, Some e) \<Longrightarrow>
   add_edges_loop g (pre @ bad # post) = (g2, Some e)"
proof (induction pre arbitrary: g)
  case Nil
  then show ?case by simp
next
  case (Cons n pre)
  obtain g' r where step: "add_edge_from g n = (g', r)" by (cases "add_edge_from g n")
  show ?case
  proof (cases r)
    case None
    with Cons step show ?thesis by simp
  next
    case (Some e')
    with Cons.prems(1) step show ?thesis by simp
  qed
qed

lemma add_node_from_no_id:
  "''id'' \<notin> fst ` set d \<Longrightarrow> add_node_from g (PDict d) = Inl KeyError"
  by (simp add: add_node_from_def subscript_def map_of_eq_None_iff [THEN iffD2])

lemma add_edge_from_no_key:
  "''source'' \<notin> fst ` set d \<or> ''target'' \<notin> fst ` set d \<Longrightarrow>
   add_edge_from g (PDict d) = (g, Some KeyError)"
  by (auto simp: add_edge_from_def subscript_def map_of_eq_None_iff [THEN iffD2]
      split: option.splits)

text \<open>
  Claim C2, as stated, fails: a response whose JSON decodes to a delta with a good node
  \<open>a\<close> followed by a node without \<^verbatim>\<open>id\<close> raises \<^verbatim>\<open>KeyError\<close> at the second node, after the
  first has been added; the handler catches the exception and the graph keeps node \<open>a\<close>.
\<close>

theorem malformed_response_counterexample:
  "update_graph
     (\<lambda>s. if s = ''{\"nodes\":[{\"id\":\"a\"},{\"label\":\"x\"}]}''
          then Inr (PDict [(''nodes'', PList [PDict [(''id'', PStr ''a'')],
                                              PDict [(''label'', PStr ''x'')]])])
          else Inl JSONDecodeError)
     DiGraph
     (Some ''{\"nodes\":[{\"id\":\"a\"},{\"label\":\"x\"}]}'')
   = (\<lparr>node_attrs = [(IdStr ''a'', [(''id'', PStr ''a'')])], edge_attrs = []\<rparr>, Some KeyError)
   \<and> \<lparr>node_attrs = [(IdStr ''a'', [(''id'', PStr ''a'')])], edge_attrs = []\<rparr> \<noteq> DiGraph"
  by (simp add: update_graph_def parse_delta_def re_search_def apply_delta_def delta_list_def
      get_default_def add_node_from_def subscript_def kw_clash_def add_node_def node_dict_def
      dict_update_def DiGraph_def)

text \<open>
  Claim C2, amended. Every exception of the \<^verbatim>\<open>try\<close> block is caught, the link and the
  exception are reported, and the loop goes on with the next document from the graph
  as the failed update left it. The graph is exactly as before the document when the
  response cannot be decoded and when the list of nodes of the decoded value cannot be
  read. When a node entry has no \<^verbatim>\<open>id\<close>, the graph is the one the node entries before it
  produced; when an edge entry has no \<^verbatim>\<open>source\<close> or no \<^verbatim>\<open>target\<close>, it is the one all the
  nodes and the edge entries before it produced.
\<close>

theorem malformed_response_recovered:
  "(parse_delta loads data = Inl e \<longrightarrow> update_graph loads g data = (g, Some e))
   \<and> (parse_delta loads data = Inr new_data \<and> delta_list new_data ''nodes'' = Inl e \<longrightarrow>
        update_graph loads g data = (g, Some e))
   \<and> (parse_delta loads data = Inr new_data
        \<and> delta_list new_data ''nodes'' = Inr (pre @ PDict d # post)
        \<and> add_nodes_loop g pre = (g1, None) \<and> ''id'' \<notin> fst ` set d \<longrightarrow>
        update_graph loads g data = (g1, Some KeyError))
   \<and> (parse_delta loads data = Inr new_data
        \<and> delta_list new_data ''nodes'' = Inr ns \<and> add_nodes_loop g ns = (g1, None)
        \<and> delta_list new_data ''edges'' = Inr (pre @ PDict d # post)
        \<and> add_edges_loop g1 pre = (g2, None)
        \<and> (''source'' \<notin> fst ` set d \<or> ''target'' \<notin> fst ` set d) \<longrightarrow>
        update_graph loads g data = (g2, Some KeyError))
   \<and> (reasoner g markdown_content = Success data
        \<and> update_graph loads g data = (g', Some e) \<longrightarrow>
        assemble reasoner loads g ((link, markdown_content) # rest)
          = (fst (assemble reasoner loads g' rest),
             (link, e) # snd (assemble reasoner loads g' rest)))"
proof -
  have p1: "parse_delta loads data = Inl e \<longrightarrow> update_graph loads g data = (g, Some e)"
    by (simp add: update_graph_def)
  have p2: "parse_delta loads data = Inr new_data \<and> delta_list new_data ''nodes'' = Inl e \<longrightarrow>
        update_graph loads g data = (g, Some e)"
    by (simp add: update_graph_def apply_delta_def)
  have p3: "parse_delta loads data = Inr new_data
        \<and> delta_list new_data ''nodes'' = Inr (pre @ PDict d # post)
        \<and> add_nodes_loop g pre = (g1, None) \<and> ''id'' \<notin> fst ` set d \<longrightarrow>
        update_graph loads g data = (g1, Some KeyError)"
  proof (intro impI, elim conjE)
    assume a: "parse_delta loads data = Inr new_data"
      "delta_list new_data ''nodes'' = Inr (pre @ PDict d # post)"
      "add_nodes_loop g pre = (g1, None)" "''id'' \<notin> fst ` set d"
    have "add_nodes_loop g (pre @ PDict d # post) = (g1, Some KeyError)"
      using a(3) add_node_from_no_id [OF a(4)] by (rule add_nodes_loop_stops)
    with a(1,2) show "update_graph loads g data = (g1, Some KeyError)"
      by (simp add: update_graph_def apply_delta_def)
  qed
  have p4: "parse_delta loads data = Inr new_data
        \<and> delta_list new_data ''nodes'' = Inr ns \<and> add_nodes_loop g ns = (g1, None)
        \<and> delta_list new_data ''edges'' = Inr (pre @ PDict d # post)
        \<and> add_edges_loop g1 pre = (g2, None)
        \<and> (''source'' \<notin> fst ` set d \<or> ''target'' \<notin> fst ` set d) \<longrightarrow>
        update_graph loads g data = (g2, Some KeyError)"
  proof (intro impI, elim conjE)
    assume a: "parse_delta loads data = Inr new_data"
      "delta_list new_data ''nodes'' = Inr ns" "add_nodes_loop g ns = (g1, None)"
      "delta_list new_data ''edges'' = Inr (pre @ PDict d # post)"
      "add_edges_loop g1 pre = (g2, None)"
      "''source'' \<notin> fst ` set d \<or> ''target'' \<notin> fst ` set d"
    have "add_edges_loop g1 (pre @ PDict d # post) = (g2, Some KeyError)"
      using a(5) add_edge_from_no_key [OF a(6)] by (rule add_edges_loop_stops)
    with a(1-4) show "update_graph loads g data = (g2, Some KeyError)"
      by (simp add: update_graph_def apply_delta_def)
  qed
  have p5: "reasoner g markdown_content = Success data
        \<and> update_graph loads g data = (g', Some e) \<longrightarrow>
        assemble reasoner loads g ((link, markdown_content) # rest)
          = (fst (assemble reasoner loads g' rest),
             (link, e) # snd (assemble reasoner loads g' rest))"
    by (simp add: case_prod_beta)
  from p1 p2 p3 p4 p5 show ?thesis by blast
qed

theorem malformed_response_recovered_witness:
  "update_graph
     (\<lambda>s. if s = ''{\"nodes\":[{\"id\":\"a\"},{\"label\":\"x\"}]}''
          then Inr (PDict [(''nodes'', PList [PDict [(''id'', PStr ''a'')],
                                              PDict [(''label'', PStr ''x'')]])])
          else Inl JSONDecodeError)
     DiGraph (Some ''no braces here'')
   = (DiGraph, Some JSONDecodeError)
   \<and> update_graph
     (\<lambda>s. if s = ''{\"nodes\":[{\"id\":\"a\"},{\"label\":\"x\"}]}''
          then Inr (PDict [(''nodes'', PList [PDict [(''id'', PStr ''a'')],
                                              PDict [(''label'', PStr ''x'')]])])
          else Inl JSONDecodeError)
     DiGraph (Some ''{\"nodes\":[{\"id\":\"a\"},{\"label\":\"x\"}]}'')
   = (\<lparr>node_attrs = [(IdStr ''a'', [(''id'', PStr ''a'')])], edge_attrs = []\<rparr>, Some KeyError)"
proof -
  let ?text = "''{\"nodes\":[{\"id\":\"a\"},{\"label\":\"x\"}]}''"
  let ?decoded = "PDict [(''nodes'', PList [PDict [(''id'', PStr ''a'')],
                                           PDict [(''label'', PStr ''x'')]])]"
  let ?loads = "\<lambda>s. if s = ?text then Inr ?decoded else Inl JSONDecodeError"
  let ?g1 = "\<lparr>node_attrs = [(IdStr ''a'', [(''id'', PStr ''a'')])], edge_attrs = []\<rparr>"
  have bad: "parse_delta ?loads (Some ''no braces here'') = Inl JSONDecodeError"
    by (simp add: parse_delta_def re_search_def)
  have first: "update_graph ?loads DiGraph (Some ''no braces here'')
                 = (DiGraph, Some JSONDecodeError)"
    using malformed_response_recovered
      [where loads = ?loads and data = "Some ''no braces here''" and e = JSONDecodeError
         and g = DiGraph] bad
    by blast
  have parsed: "parse_delta ?loads (Some ?text) = Inr ?decoded"
    by (simp add: parse_delta_def re_search_def)
  have nodes: "delta_list ?decoded ''nodes''
                 = Inr ([PDict [(''id'', PStr ''a'')]] @ PDict [(''label'', PStr ''x'')] # [])"
    by (simp add: delta_list_def get_default_def)
  have pre: "add_nodes_loop DiGraph [PDict [(''id'', PStr ''a'')]] = (?g1, None)"
    by (simp add: DiGraph_def add_node_from_def subscript_def kw_clash_def add_node_def
        node_dict_def dict_update_def)
  have missing: "''id'' \<notin> fst ` set [(''label'', PStr ''x'')]"
    by simp
  have second: "update_graph ?loads DiGraph (Some ?text) = (?g1, Some KeyError)"
    using malformed_response_recovered
      [where loads = ?loads and data = "Some ?text" and g = DiGraph and new_data = ?decoded
         and pre = "[PDict [(''id'', PStr ''a'')]]" and d = "[(''label'', PStr ''x'')]"
         and post = "[]" and ?g1.0 = ?g1]
      parsed nodes pre missing
    by blast
  from first second show ?thesis by simp
qed

section \<open>Falling back to the scraping API for a search page\<close>

text \<open>
  Claim C6 against the code. The clause \<^verbatim>\<open>except RateLimited or CaptchaDetected\<close> names the
  class \<^verbatim>\<open>RateLimited\<close> only. When the browser session signals \<^verbatim>\<open>CaptchaDetected\<close> the
  exception reaches the generic handler: the scraping API is not called and the page
  yields no link, whatever the API would have returned. When it signals
  \<^verbatim>\<open>RateLimited\<close>, the API is called in raw-markup mode and the links are extracted from
  its response.
\<close>

theorem captcha_not_caught_by_fallback:
  "scrape_google_page (\<lambda>url. Inl CaptchaDetected) scrape_do_no_md extract_links target page
     = ([], [SlowScrape (google_url target page)])
   \<and> scrape_google_page (\<lambda>url. Inl RateLimited) (\<lambda>url. Inr html) (\<lambda>markup. Inr links) target page
     = (links, [SlowScrape (google_url target page), ScrapeDoNoMd (google_url target page)])"
  by (simp add: scrape_google_page_def caught_by_def class_or_def Let_def)


section \<open>The dispatcher's partition of a page of links\<close>

lemma categorize_loop_filter:
  "categorize_loop netloc links s p = Inr (s', p') \<Longrightarrow>
   s' = s @ filter (skip_listed netloc) links
   \<and> p' = p @ filter (\<lambda>l. \<not> skip_listed netloc l) links"
proof (induction links arbitrary: s p)
  case Nil
  then show ?case by simp
next
  case (Cons link links)
  show ?case
  proof (cases "netloc link")
    case (Inl e)
    with Cons.prems show ?thesis by simp
  next
    case (Inr domain)
    show ?thesis
    proof (cases "list_ex (\<lambda>skip_domain. sublist skip_domain domain) SKIP_DOMAINS")
      case True
      with Inr Cons.prems
      have "categorize_loop netloc links (s @ [link]) p = Inr (s', p')" by simp
      from Cons.IH [OF this] True Inr show ?thesis by (simp add: skip_listed_def)
    next
      case False
      with Inr Cons.prems
      have "categorize_loop netloc links s (p @ [link]) = Inr (s', p')" by simp
      from Cons.IH [OF this] False Inr show ?thesis by (simp add: skip_listed_def)
    qed
  qed
qed

lemma categorize_links_filter:
  "categorize_links netloc links = Inr (skip, proc) \<Longrightarrow>
   skip = filter (skip_listed netloc) links \<and> proc = filter (\<lambda>l. \<not> skip_listed netloc l) links"
  using categorize_loop_filter [of netloc links "[]" "[]" skip proc]
  by (simp add: categorize_links_def)

lemma gather_calls:
  "gather quick_scrape purify_html links calls = (results, calls') \<Longrightarrow>
   calls' = calls @ links \<and> map fst results = links"
proof (induction links arbitrary: calls results calls')
  case Nil
  then show ?case by simp
next
  case (Cons link links)
  obtain rs c2 where rest: "gather quick_scrape purify_html links (calls @ [link]) = (rs, c2)"
    by (cases "gather quick_scrape purify_html links (calls @ [link])")
  from Cons.IH [OF rest] Cons.prems rest show ?case
    by (auto simp: process_link_def)
qed

lemma collect_split:
  "\<exists>succ failed.
     scraped_results (collect st results) = scraped_results st @ succ
     \<and> special_links (collect st results) = special_links st @ failed
     \<and> quick_scrape_calls (collect st results) = quick_scrape_calls st
     \<and> length succ + length failed = length results
     \<and> mset (map fst succ) + mset failed = mset (map fst results)"
proof (induction st results rule: collect.induct)
  case (1 st)
  then show ?case by simp
next
  case (2 st link error results)
  let ?st = "st\<lparr>special_links := special_links st @ [link]\<rparr>"
  from 2 obtain succ failed where
    h: "scraped_results (collect ?st results) = scraped_results ?st @ succ"
       "special_links (collect ?st results) = special_links ?st @ failed"
       "quick_scrape_calls (collect ?st results) = quick_scrape_calls ?st"
       "length succ + length failed = length results"
       "mset (map fst succ) + mset failed = mset (map fst results)"
    by blast
  show ?case
    apply (rule exI [of _ succ])
    apply (rule exI [of _ "link # failed"])
    using h by simp
next
  case (3 st link markdown_content results)
  let ?st = "st\<lparr>scraped_results := scraped_results st @ [(link, markdown_content)]\<rparr>"
  from 3 obtain succ failed where
    h: "scraped_results (collect ?st results) = scraped_results ?st @ succ"
       "special_links (collect ?st results) = special_links ?st @ failed"
       "quick_scrape_calls (collect ?st results) = quick_scrape_calls ?st"
       "length succ + length failed = length results"
       "mset (map fst succ) + mset failed = mset (map fst results)"
    by blast
  show ?case
    apply (rule exI [of _ "(link, markdown_content) # succ"])
    apply (rule exI [of _ failed])
    using h by simp
qed

lemma process_page_shape:
  assumes "process_page netloc quick_scrape purify_html st links = Inr st'"
  shows "\<exists>succ failed.
     scraped_results st' = scraped_results st @ succ
     \<and> special_links st' = special_links st @ failed @ filter (skip_listed netloc) links
     \<and> quick_scrape_calls st' =
         quick_scrape_calls st @ filter (\<lambda>l. \<not> skip_listed netloc l) links
     \<and> length succ + length failed = length (filter (\<lambda>l. \<not> skip_listed netloc l) links)
     \<and> mset (map fst succ) + mset failed = mset (filter (\<lambda>l. \<not> skip_listed netloc l) links)"
proof -
  from assms obtain skip proc where cat: "categorize_links netloc links = Inr (skip, proc)"
    by (auto simp: process_page_def split: sum.splits)
  from categorize_links_filter [OF cat]
  have skip: "skip = filter (skip_listed netloc) links"
    and proc: "proc = filter (\<lambda>l. \<not> skip_listed netloc l) links" by simp_all
  obtain results calls where g: "gather quick_scrape purify_html proc (quick_scrape_calls st) = (results, calls)"
    by (cases "gather quick_scrape purify_html proc (quick_scrape_calls st)")
  from gather_calls [OF g] have calls: "calls = quick_scrape_calls st @ proc"
    and fsts: "map fst results = proc" by simp_all
  let ?st0 = "st\<lparr>quick_scrape_calls := calls\<rparr>"
  from assms cat g
  have st': "st' = (collect ?st0 results)\<lparr>special_links := special_links (collect ?st0 results) @ skip\<rparr>"
    by (simp add: process_page_def Let_def)
  from collect_split [of ?st0 results] obtain succ failed where
    h: "scraped_results (collect ?st0 results) = scraped_results ?st0 @ succ"
       "special_links (collect ?st0 results) = special_links ?st0 @ failed"
       "quick_scrape_calls (collect ?st0 results) = quick_scrape_calls ?st0"
       "length succ + length failed = length results"
       "mset (map fst succ) + mset failed = mset (map fst results)"
    by blast
  have len: "length results = length proc" using fsts by (metis length_map)
  show ?thesis
    apply (rule exI [of _ succ])
    apply (rule exI [of _ failed])
    using h st' calls fsts len skip proc by simp
qed

text \<open>
  Claim C7. When the page loop's body succeeds on the links of a page, the fast tier
  (\<^verbatim>\<open>scraper.quick_scrape\<close>) has been called on the links that are not skip-listed and on
  no other: a skip-listed link is not among the calls the page added, and it is in the
  escalation set \<^verbatim>\<open>special_links\<close>, after the fast-tier failures of the page; every other
  link of the page has gone to the fast tier.
\<close>

theorem skip_listed_never_fast_tier:
  assumes "process_page netloc quick_scrape purify_html st links = Inr st'"
  shows "quick_scrape_calls st' =
           quick_scrape_calls st @ filter (\<lambda>l. \<not> skip_listed netloc l) links
         \<and> (\<exists>failed. special_links st' =
               special_links st @ failed @ filter (skip_listed netloc) links)
         \<and> (\<forall>link \<in> set links. skip_listed netloc link \<longrightarrow>
               link \<in> set (special_links st')
               \<and> link \<notin> set (drop (length (quick_scrape_calls st)) (quick_scrape_calls st')))
         \<and> (\<forall>link \<in> set links. \<not> skip_listed netloc link \<longrightarrow>
               link \<in> set (quick_scrape_calls st'))"
proof -
  from process_page_shape [OF assms] obtain succ failed where
    sp: "special_links st' = special_links st @ failed @ filter (skip_listed netloc) links"
    and calls: "quick_scrape_calls st' =
                  quick_scrape_calls st @ filter (\<lambda>l. \<not> skip_listed netloc l) links"
    by blast
  have new: "drop (length (quick_scrape_calls st)) (quick_scrape_calls st')
               = filter (\<lambda>l. \<not> skip_listed netloc l) links"
    by (simp add: calls)
  have a: "\<forall>link \<in> set links. skip_listed netloc link \<longrightarrow>
             link \<in> set (special_links st')
             \<and> link \<notin> set (drop (length (quick_scrape_calls st)) (quick_scrape_calls st'))"
    unfolding new by (simp add: sp)
  have b: "\<forall>link \<in> set links. \<not> skip_listed netloc link \<longrightarrow>
             link \<in> set (quick_scrape_calls st')"
    by (simp add: calls)
  from sp calls a b show ?thesis by blast
qed

theorem skip_listed_never_fast_tier_witness:
  "process_page
     (\<lambda>l. if l = ''https://www.linkedin.com/in/jd'' then Inr ''www.linkedin.com''
          else if l = ''https://example.com/a'' then Inr ''example.com''
          else if l = ''https://example.org/b'' then Inr ''example.org''
          else Inl ValueError)
     (\<lambda>l. if l = ''https://example.org/b'' then Inl RateLimited else Inr ''<html>'') (\<lambda>h. Inr ''text'')
     \<lparr>scraped_results = [], special_links = [], quick_scrape_calls = []\<rparr>
     [''https://www.linkedin.com/in/jd'', ''https://example.com/a'', ''https://example.org/b'']
   = Inr \<lparr>scraped_results = [(''https://example.com/a'', ''text'')],
          special_links = [''https://example.org/b'', ''https://www.linkedin.com/in/jd''],
          quick_scrape_calls = [''https://example.com/a'', ''https://example.org/b'']\<rparr>
   \<and> ''https://www.linkedin.com/in/jd''
       \<in> set [''https://example.org/b'', ''https://www.linkedin.com/in/jd'']
   \<and> ''https://www.linkedin.com/in/jd''
       \<notin> set [''https://example.com/a'', ''https://example.org/b'']"
proof -
  let ?netloc = "(\<lambda>l. if l = ''https://www.linkedin.com/in/jd'' then Inr ''www.linkedin.com''
          else if l = ''https://example.com/a'' then Inr ''example.com''
          else if l = ''https://example.org/b'' then Inr ''example.org''
          else Inl ValueError)"
  let ?quick = "(\<lambda>l. if l = ''https://example.org/b'' then Inl RateLimited else Inr ''<html>'')"
  let ?st = "\<lparr>scraped_results = [], special_links = [], quick_scrape_calls = []\<rparr>"
  let ?st' = "\<lparr>scraped_results = [(''https://example.com/a'', ''text'')],
          special_links = [''https://example.org/b'', ''https://www.linkedin.com/in/jd''],
          quick_scrape_calls = [''https://example.com/a'', ''https://example.org/b'']\<rparr>"
  let ?links = "[''https://www.linkedin.com/in/jd'', ''https://example.com/a'', ''https://example.org/b'']"
  have d1: "list_ex (\<lambda>sd. sublist sd ''www.linkedin.com'') SKIP_DOMAINS"
    by (simp add: SKIP_DOMAINS_def sublist_code)
  have d2: "\<not> list_ex (\<lambda>sd. sublist sd ''example.com'') SKIP_DOMAINS"
    by (simp add: SKIP_DOMAINS_def sublist_code)
  have d3: "\<not> list_ex (\<lambda>sd. sublist sd ''example.org'') SKIP_DOMAINS"
    by (simp add: SKIP_DOMAINS_def sublist_code)
  have cat: "categorize_links ?netloc ?links
               = Inr ([''https://www.linkedin.com/in/jd''],
                      [''https://example.com/a'', ''https://example.org/b''])"
    by (simp add: categorize_links_def d1 d2 d3)
  have run: "process_page ?netloc ?quick (\<lambda>h. Inr ''text'') ?st ?links = Inr ?st'"
    by (simp add: process_page_def cat process_link_def)
  have sk: "skip_listed ?netloc ''https://www.linkedin.com/in/jd''"
    using d1 by (simp add: skip_listed_def)
  have mem: "''https://www.linkedin.com/in/jd'' \<in> set ?links" by simp
  from skip_listed_never_fast_tier [OF run]
  have "\<forall>link \<in> set ?links. skip_listed ?netloc link \<longrightarrow>
               link \<in> set (special_links ?st')
               \<and> link \<notin> set (drop (length (quick_scrape_calls ?st)) (quick_scrape_calls ?st'))"
    by (rule conjunct1 [OF conjunct2 [OF conjunct2]])
  from bspec [OF this mem] sk
  have "''https://www.linkedin.com/in/jd'' \<in> set (special_links ?st')
        \<and> ''https://www.linkedin.com/in/jd''
            \<notin> set (drop (length (quick_scrape_calls ?st)) (quick_scrape_calls ?st'))"
    by (rule mp)
  then have "''https://www.linkedin.com/in/jd''
               \<in> set [''https://example.org/b'', ''https://www.linkedin.com/in/jd'']
             \<and> ''https://www.linkedin.com/in/jd''
               \<notin> set [''https://example.com/a'', ''https://example.org/b'']"
    by simp
  with run show ?thesis by (rule conjI)
qed

text \<open>
  Claim C8. For every page of links, once the fast tier is done and the skip-listed
  links have been added, the page has contributed \<open>succ\<close> to the scraped documents and
  \<open>esc\<close> to the escalation set, with as many entries together as there are processable
  and skip-listed links, that is as many as links; as multisets, the links of \<open>succ\<close>
  and \<open>esc\<close> are the links of the page, each one exactly once.
\<close>

theorem every_link_accounted_once:
  assumes "process_page netloc quick_scrape purify_html st links = Inr st'"
  shows "\<exists>succ esc skip proc.
           categorize_links netloc links = Inr (skip, proc)
           \<and> scraped_results st' = scraped_results st @ succ
           \<and> special_links st' = special_links st @ esc
           \<and> length succ + length esc = length proc + length skip
           \<and> length proc + length skip = length links
           \<and> mset (map fst succ) + mset esc = mset links"
proof -
  from assms obtain skip proc where cat: "categorize_links netloc links = Inr (skip, proc)"
    by (auto simp: process_page_def split: sum.splits)
  from categorize_links_filter [OF cat]
  have skip: "skip = filter (skip_listed netloc) links"
    and proc: "proc = filter (\<lambda>l. \<not> skip_listed netloc l) links" by simp_all
  from process_page_shape [OF assms] obtain succ failed where
    sc: "scraped_results st' = scraped_results st @ succ"
    and sp: "special_links st' = special_links st @ failed @ skip"
    and len: "length succ + length failed = length proc"
    and ms: "mset (map fst succ) + mset failed = mset proc"
    unfolding skip proc by blast
  have total: "length proc + length skip = length links"
    unfolding skip proc using sum_length_filter_compl [of "skip_listed netloc" links] by simp
  have parts: "mset proc + mset skip = mset links"
    unfolding skip proc by (simp add: mset_filter)
  have acc: "mset (map fst succ) + mset (failed @ skip) = mset links"
    using ms parts by (simp add: add.assoc [symmetric])
  have l2: "length succ + length (failed @ skip) = length proc + length skip"
    using len by simp
  show ?thesis
    apply (rule exI [of _ succ])
    apply (rule exI [of _ "failed @ skip"])
    apply (rule exI [of _ skip])
    apply (rule exI [of _ proc])
    using cat sc sp l2 total acc by simp
qed

theorem every_link_accounted_once_witness:
  "process_page
     (\<lambda>l. if l = ''https://www.linkedin.com/in/jd'' then Inr ''www.linkedin.com''
          else if l = ''https://example.com/a'' then Inr ''example.com''
          else if l = ''https://example.org/b'' then Inr ''example.org''
          else Inl ValueError)
     (\<lambda>l. if l = ''https://example.org/b'' then Inl RateLimited else Inr ''<html>'') (\<lambda>h. Inr ''text'')
     \<lparr>scraped_results = [], special_links = [], quick_scrape_calls = []\<rparr>
     [''https://www.linkedin.com/in/jd'', ''https://example.com/a'', ''https://example.org/b'']
   = Inr \<lparr>scraped_results = [(''https://example.com/a'', ''text'')],
          special_links = [''https://example.org/b'', ''https://www.linkedin.com/in/jd''],
          quick_scrape_calls = [''https://example.com/a'', ''https://example.org/b'']\<rparr>
   \<and> (\<exists>succ esc skip proc.
         categorize_links
           (\<lambda>l. if l = ''https://www.linkedin.com/in/jd'' then Inr ''www.linkedin.com''
          else if l = ''https://example.com/a'' then Inr ''example.com''
          else if l = ''https://example.org/b'' then Inr ''example.org''
          else Inl ValueError)
           [''https://www.linkedin.com/in/jd'', ''https://example.com/a'', ''https://example.org/b''] = Inr (skip, proc)
         \<and> scraped_results \<lparr>scraped_results = [(''https://example.com/a'', ''text'')],
          special_links = [''https://example.org/b'', ''https://www.linkedin.com/in/jd''],
          quick_scrape_calls = [''https://example.com/a'', ''https://example.org/b'']\<rparr> = scraped_results \<lparr>scraped_results = [], special_links = [], quick_scrape_calls = []\<rparr> @ succ
         \<and> special_links \<lparr>scraped_results = [(''https://example.com/a'', ''text'')],
          special_links = [''https://example.org/b'', ''https://www.linkedin.com/in/jd''],
          quick_scrape_calls = [''https://example.com/a'', ''https://example.org/b'']\<rparr> = special_links \<lparr>scraped_results = [], special_links = [], quick_scrape_calls = []\<rparr> @ esc
         \<and> length succ + length esc = length proc + length skip
         \<and> length proc + length skip = length [''https://www.linkedin.com/in/jd'', ''https://example.com/a'', ''https://example.org/b'']
         \<and> mset (map fst succ) + mset esc = mset [''https://www.linkedin.com/in/jd'', ''https://example.com/a'', ''https://example.org/b''])"
proof -
  let ?netloc = "(\<lambda>l. if l = ''https://www.linkedin.com/in/jd'' then Inr ''www.linkedin.com''
          else if l = ''https://example.com/a'' then Inr ''example.com''
          else if l = ''https://example.org/b'' then Inr ''example.org''
          else Inl ValueError)"
  let ?quick = "(\<lambda>l. if l = ''https://example.org/b'' then Inl RateLimited else Inr ''<html>'')"
  let ?st = "\<lparr>scraped_results = [], special_links = [], quick_scrape_calls = []\<rparr>"
  let ?st' = "\<lparr>scraped_results = [(''https://example.com/a'', ''text'')],
          special_links = [''https://example.org/b'', ''https://www.linkedin.com/in/jd''],
          quick_scrape_calls = [''https://example.com/a'', ''https://example.org/b'']\<rparr>"
  let ?links = "[''https://www.linkedin.com/in/jd'', ''https://example.com/a'', ''https://example.org/b'']"
  have d1: "list_ex (\<lambda>sd. sublist sd ''www.linkedin.com'') SKIP_DOMAINS"
    by (simp add: SKIP_DOMAINS_def sublist_code)
  have d2: "\<not> list_ex (\<lambda>sd. sublist sd ''example.com'') SKIP_DOMAINS"
    by (simp add: SKIP_DOMAINS_def sublist_code)
  have d3: "\<not> list_ex (\<lambda>sd. sublist sd ''example.org'') SKIP_DOMAINS"
    by (simp add: SKIP_DOMAINS_def sublist_code)
  have cat: "categorize_links ?netloc ?links
               = Inr ([''https://www.linkedin.com/in/jd''],
                      [''https://example.com/a'', ''https://example.org/b''])"
    by (simp add: categorize_links_def d1 d2 d3)
  have run: "process_page ?netloc ?quick (\<lambda>h. Inr ''text'') ?st ?links = Inr ?st'"
    by (simp add: process_page_def cat process_link_def)
  from run every_link_accounted_once [OF run] show ?thesis by (rule conjI)
qed

section \<open>Person selection on a node without a label\<close>

lemma py_in_error: "py_in target v = Inl e \<Longrightarrow> e = TypeError"
  by (cases v) auto

lemma person_nodes_raises:
  assumes "(n, data) \<in> set nodes"
    and "dict_get data ''type'' = PStr ''person''"
    and "''label'' \<notin> fst ` set data"
  shows "person_nodes target nodes = Inl TypeError"
  using assms(1)
proof (induction nodes)
  case Nil
  then show ?case by simp
next
  case (Cons nd nodes)
  obtain n' data' where nd: "nd = (n', data')" by (cases nd)
  have label: "dict_get data ''label'' = PNone"
    using assms(3) by (simp add: dict_get_def map_of_eq_None_iff [THEN iffD2])
  show ?case
  proof (cases "nd = (n, data)")
    case True
    then show ?thesis using assms(2) label by simp
  next
    case False
    with Cons.prems have "(n, data) \<in> set nodes" by simp
    from Cons.IH [OF this] show ?thesis
      unfolding nd
      by (auto split: sum.splits dest: py_in_error)
  qed
qed

text \<open>
  Claim C10. If the assembled graph has a node whose \<^verbatim>\<open>type\<close> is \<^verbatim>\<open>"person"\<close> and which has
  no \<^verbatim>\<open>label\<close>, the person-selection comprehension raises \<^verbatim>\<open>TypeError\<close>: at that node (if
  not before) the membership test is applied to \<^verbatim>\<open>None\<close>. The comprehension stands
  outside every handler, so the exception ends the run.
\<close>

theorem person_without_label_aborts_selection:
  assumes "(n, data) \<in> set (node_attrs g)"
    and "dict_get data ''type'' = PStr ''person''"
    and "''label'' \<notin> fst ` set data"
  shows "select_persons target g = Inl TypeError"
  unfolding select_persons_def using assms by (rule person_nodes_raises)

theorem person_without_label_aborts_selection_witness:
  "select_persons ''John Doe''
     \<lparr>node_attrs = [(IdStr ''p0'', [(''id'', PStr ''p0''), (''type'', PStr ''person''),
                                    (''label'', PStr ''John Doe'')]),
                    (IdStr ''p1'', [(''id'', PStr ''p1''), (''type'', PStr ''person'')])],
      edge_attrs = []\<rparr> = Inl TypeError"
proof -
  let ?data = "[(''id'', PStr ''p1''), (''type'', PStr ''person'')]"
  let ?g = "\<lparr>node_attrs = [(IdStr ''p0'', [(''id'', PStr ''p0''), (''type'', PStr ''person''),
                                    (''label'', PStr ''John Doe'')]),
                    (IdStr ''p1'', ?data)],
      edge_attrs = []\<rparr>"
  have h1: "(IdStr ''p1'', ?data) \<in> set (node_attrs ?g)" by simp
  have h2: "dict_get ?data ''type'' = PStr ''person''" by (simp add: dict_get_def)
  have h3: "''label'' \<notin> fst ` set ?data" by simp
  from person_without_label_aborts_selection [OF h1 h2 h3] show ?thesis .
qed

section \<open>Associated identifiers\<close>

lemma set_set_add: "set (set_add s x) = insert x (set s)"
  by (auto simp: set_add_def)

lemma distinct_set_add: "distinct s \<Longrightarrow> distinct (set_add s x)"
  by (simp add: set_add_def)

lemma associated_add_result:
  assumes "associated_add a t l = Inr a'"
  shows "\<exists>x. py_hash l = Inr x
           \<and> a' = (if t = PStr ''email'' then a\<lparr>email := set_add (email a) x\<rparr>
                   else if t = PStr ''username'' then a\<lparr>username := set_add (username a) x\<rparr>
                   else a\<lparr>phone := set_add (phone a) x\<rparr>)"
  using assms by (auto simp: associated_add_def split: sum.splits)

lemma associated_add_mono:
  assumes "associated_add a t l = Inr a'"
  shows "set (email a) \<subseteq> set (email a') \<and> set (username a) \<subseteq> set (username a')
         \<and> set (phone a) \<subseteq> set (phone a')"
  using associated_add_result [OF assms] by (auto simp: set_set_add)

lemma associated_add_distinct:
  assumes "associated_add a t l = Inr a'"
    and "distinct (email a) \<and> distinct (username a) \<and> distinct (phone a)"
  shows "distinct (email a') \<and> distinct (username a') \<and> distinct (phone a')"
  using associated_add_result [OF assms(1)] assms(2) by (auto simp: distinct_set_add)

lemma associated_add_email:
  assumes "associated_add a (PStr ''email'') l = Inr a'"
  shows "\<exists>x. py_hash l = Inr x \<and> x \<in> set (email a')"
  using associated_add_result [OF assms] by (auto simp: set_set_add)

lemma in_associated_True:
  "in_associated t = Inr True \<Longrightarrow>
   t = PStr ''email'' \<or> t = PStr ''username'' \<or> t = PStr ''phone''"
  by (cases t) (auto simp: in_associated_def split: if_splits)

lemma associated_add_direct_phone:
  assumes "associated_add a t l = Inr a'" and "y \<in> set (phone a')" and "y \<notin> set (phone a)"
    and "t = PStr ''email'' \<or> t = PStr ''username'' \<or> t = PStr ''phone''"
  shows "t = PStr ''phone'' \<and> py_hash l = Inr y"
proof -
  from associated_add_result [OF assms(1)] obtain x where
    x: "py_hash l = Inr x"
    and a': "a' = (if t = PStr ''email'' then a\<lparr>email := set_add (email a) x\<rparr>
                   else if t = PStr ''username'' then a\<lparr>username := set_add (username a) x\<rparr>
                   else a\<lparr>phone := set_add (phone a) x\<rparr>)" by blast
  show ?thesis
  proof (cases "t = PStr ''email''")
    case True
    with a' assms(2,3) show ?thesis by simp
  next
    case ne: False
    show ?thesis
    proof (cases "t = PStr ''username''")
      case True
      with a' ne assms(2,3) show ?thesis by simp
    next
      case False
      with ne assms(4) have t: "t = PStr ''phone''" by blast
      from a' ne False have "phone a' = set_add (phone a) x" by simp
      with assms(2,3) have "y = x" by (simp add: set_set_add)
      with x t show ?thesis by simp
    qed
  qed
qed

lemma sm_loop_props:
  "sm_loop g a ms = Inr a' \<Longrightarrow>
   (set (email a) \<subseteq> set (email a') \<and> set (username a) \<subseteq> set (username a')
      \<and> set (phone a) \<subseteq> set (phone a'))
   \<and> (distinct (email a) \<and> distinct (username a) \<and> distinct (phone a) \<longrightarrow>
        distinct (email a') \<and> distinct (username a') \<and> distinct (phone a'))
   \<and> phone a' = phone a
   \<and> (\<forall>m \<in> set ms. \<forall>md. node_data_of g m = Inr md \<and> dict_get md ''type'' = PStr ''email'' \<longrightarrow>
         (\<exists>x. py_hash (dict_get md ''label'') = Inr x \<and> x \<in> set (email a')))"
proof (induction ms arbitrary: a)
  case Nil
  then show ?case by simp
next
  case (Cons m ms)
  from Cons.prems obtain sm_data where nd: "node_data_of g m = Inr sm_data"
    by (auto split: sum.splits)
  let ?t = "dict_get sm_data ''type''"
  show ?case
  proof (cases "?t = PStr ''email'' \<or> ?t = PStr ''username''")
    case True
    with Cons.prems nd obtain a1 where
      add: "associated_add a ?t (dict_get sm_data ''label'') = Inr a1"
      and rest: "sm_loop g a1 ms = Inr a'"
      by (auto simp: Let_def split: sum.splits)
    note ih = Cons.IH [OF rest]
    note mono = associated_add_mono [OF add]
    have ph: "phone a1 = phone a"
      using associated_add_result [OF add] True by auto
    have dist: "distinct (email a) \<and> distinct (username a) \<and> distinct (phone a) \<longrightarrow>
        distinct (email a') \<and> distinct (username a') \<and> distinct (phone a')"
      using associated_add_distinct [OF add] ih by blast
    have head: "\<forall>md. node_data_of g m = Inr md \<and> dict_get md ''type'' = PStr ''email'' \<longrightarrow>
         (\<exists>x. py_hash (dict_get md ''label'') = Inr x \<and> x \<in> set (email a'))"
    proof (intro allI impI, elim conjE)
      fix md assume "node_data_of g m = Inr md" and e: "dict_get md ''type'' = PStr ''email''"
      with nd have md: "md = sm_data" by simp
      from add e md have "associated_add a (PStr ''email'') (dict_get md ''label'') = Inr a1"
        by simp
      from associated_add_email [OF this] ih
      show "\<exists>x. py_hash (dict_get md ''label'') = Inr x \<and> x \<in> set (email a')" by blast
    qed
    from ih mono ph dist head show ?thesis by auto
  next
    case False
    with Cons.prems nd have rest: "sm_loop g a ms = Inr a'"
      by (auto simp: Let_def)
    note ih = Cons.IH [OF rest]
    have head: "\<forall>md. node_data_of g m = Inr md \<and> dict_get md ''type'' = PStr ''email'' \<longrightarrow>
         (\<exists>x. py_hash (dict_get md ''label'') = Inr x \<and> x \<in> set (email a'))"
      using nd False by auto
    from ih head show ?thesis by auto
  qed
qed


lemma neighbor_loop_Cons_Inr:
  assumes "neighbor_loop g a (n # ns) = Inr a'"
  shows "\<exists>node_data direct a1 a2.
     node_data_of g n = Inr node_data
     \<and> in_associated (dict_get node_data ''type'') = Inr direct
     \<and> (if direct then associated_add a (dict_get node_data ''type'') (dict_get node_data ''label'')
         else Inr a) = Inr a1
     \<and> (if dict_get node_data ''type'' = PStr ''social_media''
         then (case neighbors g n of Inl e \<Rightarrow> Inl e | Inr ms \<Rightarrow> sm_loop g a1 ms)
         else Inr a1) = Inr a2
     \<and> neighbor_loop g a2 ns = Inr a'"
proof (cases "node_data_of g n")
  case (Inl e)
  with assms show ?thesis by simp
next
  case nd: (Inr node_data)
  show ?thesis
  proof (cases "in_associated (dict_get node_data ''type'')")
    case (Inl e)
    with assms nd show ?thesis by (simp add: Let_def)
  next
    case dir: (Inr direct)
    show ?thesis
    proof (cases "if direct then associated_add a (dict_get node_data ''type'')
                                   (dict_get node_data ''label'') else Inr a")
      case (Inl e)
      with assms nd dir show ?thesis by (simp add: Let_def)
    next
      case s1: (Inr a1)
      show ?thesis
      proof (cases "if dict_get node_data ''type'' = PStr ''social_media''
         then (case neighbors g n of Inl e \<Rightarrow> Inl e | Inr ms \<Rightarrow> sm_loop g a1 ms)
         else Inr a1")
        case (Inl e)
        with assms nd dir s1 show ?thesis by (simp add: Let_def)
      next
        case s2: (Inr a2)
        with assms nd dir s1 have "neighbor_loop g a2 ns = Inr a'" by (simp add: Let_def)
        with nd dir s1 s2 show ?thesis by blast
      qed
    qed
  qed
qed

lemma direct_step_mono:
  assumes "(if direct then associated_add a t l else Inr a) = Inr a1"
  shows "set (email a) \<subseteq> set (email a1) \<and> set (username a) \<subseteq> set (username a1)
         \<and> set (phone a) \<subseteq> set (phone a1)"
proof (cases direct)
  case True
  with assms have "associated_add a t l = Inr a1" by simp
  then show ?thesis by (rule associated_add_mono)
next
  case False
  with assms show ?thesis by simp
qed

lemma direct_step_distinct:
  assumes "(if direct then associated_add a t l else Inr a) = Inr a1"
    and "distinct (email a) \<and> distinct (username a) \<and> distinct (phone a)"
  shows "distinct (email a1) \<and> distinct (username a1) \<and> distinct (phone a1)"
proof (cases direct)
  case True
  with assms(1) have "associated_add a t l = Inr a1" by simp
  then show ?thesis using assms(2) by (rule associated_add_distinct)
next
  case False
  with assms show ?thesis by simp
qed

lemma direct_step_phone:
  assumes "in_associated t = Inr direct"
    and "(if direct then associated_add a t l else Inr a) = Inr a1"
    and "y \<in> set (phone a1)" and "y \<notin> set (phone a)"
  shows "t = PStr ''phone'' \<and> py_hash l = Inr y"
proof (cases direct)
  case True
  with assms(2) have add: "associated_add a t l = Inr a1" by simp
  from True assms(1) have "in_associated t = Inr True" by simp
  then have "t = PStr ''email'' \<or> t = PStr ''username'' \<or> t = PStr ''phone''"
    by (rule in_associated_True)
  with add assms(3,4) show ?thesis by (rule associated_add_direct_phone)
next
  case False
  with assms(2-4) show ?thesis by simp
qed

lemma sm_step_facts:
  assumes "(if t = PStr ''social_media''
            then (case neighbors g n of Inl e \<Rightarrow> Inl e | Inr ms \<Rightarrow> sm_loop g a1 ms)
            else Inr a1) = Inr a2"
  shows "set (email a1) \<subseteq> set (email a2) \<and> set (username a1) \<subseteq> set (username a2)
         \<and> set (phone a1) \<subseteq> set (phone a2)"
    and "distinct (email a1) \<and> distinct (username a1) \<and> distinct (phone a1) \<Longrightarrow>
         distinct (email a2) \<and> distinct (username a2) \<and> distinct (phone a2)"
    and "phone a2 = phone a1"
    and "t = PStr ''social_media'' \<Longrightarrow> neighbors g n = Inr ms \<Longrightarrow> m \<in> set ms \<Longrightarrow>
         node_data_of g m = Inr md \<Longrightarrow> dict_get md ''type'' = PStr ''email'' \<Longrightarrow>
         \<exists>x. py_hash (dict_get md ''label'') = Inr x \<and> x \<in> set (email a2)"
proof -
  have all: "(set (email a1) \<subseteq> set (email a2) \<and> set (username a1) \<subseteq> set (username a2)
         \<and> set (phone a1) \<subseteq> set (phone a2))
    \<and> (distinct (email a1) \<and> distinct (username a1) \<and> distinct (phone a1) \<longrightarrow>
         distinct (email a2) \<and> distinct (username a2) \<and> distinct (phone a2))
    \<and> phone a2 = phone a1
    \<and> (t = PStr ''social_media'' \<longrightarrow> (\<forall>ms'. neighbors g n = Inr ms' \<longrightarrow>
         (\<forall>m \<in> set ms'. \<forall>md. node_data_of g m = Inr md \<and> dict_get md ''type'' = PStr ''email'' \<longrightarrow>
         (\<exists>x. py_hash (dict_get md ''label'') = Inr x \<and> x \<in> set (email a2)))))"
  proof (cases "t = PStr ''social_media''")
    case True
    show ?thesis
    proof (cases "neighbors g n")
      case (Inl e)
      with assms True show ?thesis by simp
    next
      case (Inr ms0)
      with assms True have loop: "sm_loop g a1 ms0 = Inr a2" by simp
      from sm_loop_props [OF loop] Inr show ?thesis by simp
    qed
  next
    case False
    with assms show ?thesis by simp
  qed
  from all show "set (email a1) \<subseteq> set (email a2) \<and> set (username a1) \<subseteq> set (username a2)
         \<and> set (phone a1) \<subseteq> set (phone a2)" by (rule conjunct1)
  from all show "phone a2 = phone a1" by (rule conjunct1 [OF conjunct2 [OF conjunct2]])
  from all have d: "distinct (email a1) \<and> distinct (username a1) \<and> distinct (phone a1) \<longrightarrow>
         distinct (email a2) \<and> distinct (username a2) \<and> distinct (phone a2)"
    by (rule conjunct1 [OF conjunct2])
  show "distinct (email a1) \<and> distinct (username a1) \<and> distinct (phone a1) \<Longrightarrow>
         distinct (email a2) \<and> distinct (username a2) \<and> distinct (phone a2)"
    using d by (rule mp)
  from all have h: "t = PStr ''social_media'' \<longrightarrow> (\<forall>ms'. neighbors g n = Inr ms' \<longrightarrow>
         (\<forall>m \<in> set ms'. \<forall>md. node_data_of g m = Inr md \<and> dict_get md ''type'' = PStr ''email'' \<longrightarrow>
         (\<exists>x. py_hash (dict_get md ''label'') = Inr x \<and> x \<in> set (email a2))))"
    by (rule conjunct2 [OF conjunct2 [OF conjunct2]])
  show "t = PStr ''social_media'' \<Longrightarrow> neighbors g n = Inr ms \<Longrightarrow> m \<in> set ms \<Longrightarrow>
         node_data_of g m = Inr md \<Longrightarrow> dict_get md ''type'' = PStr ''email'' \<Longrightarrow>
         \<exists>x. py_hash (dict_get md ''label'') = Inr x \<and> x \<in> set (email a2)"
    using h by blast
qed

lemma neighbor_loop_mono:
  "neighbor_loop g a ns = Inr a' \<Longrightarrow>
   set (email a) \<subseteq> set (email a') \<and> set (username a) \<subseteq> set (username a')
   \<and> set (phone a) \<subseteq> set (phone a')"
proof (induction ns arbitrary: a)
  case Nil
  then show ?case by simp
next
  case (Cons n ns)
  from neighbor_loop_Cons_Inr [OF Cons.prems] obtain node_data direct a1 a2 where
    s1: "(if direct
          then associated_add a (dict_get node_data ''type'') (dict_get node_data ''label'')
          else Inr a) = Inr a1"
    and s2: "(if dict_get node_data ''type'' = PStr ''social_media''
              then (case neighbors g n of Inl e \<Rightarrow> Inl e | Inr ms \<Rightarrow> sm_loop g a1 ms)
              else Inr a1) = Inr a2"
    and rest: "neighbor_loop g a2 ns = Inr a'"
    by blast
  note m1 = direct_step_mono [OF s1]
  note m2 = sm_step_facts(1) [OF s2]
  note m3 = Cons.IH [OF rest]
  have e: "set (email a) \<subseteq> set (email a')" using m1 m2 m3 by (meson subset_trans)
  have u: "set (username a) \<subseteq> set (username a')" using m1 m2 m3 by (meson subset_trans)
  have p: "set (phone a) \<subseteq> set (phone a')" using m1 m2 m3 by (meson subset_trans)
  from e u p show ?case by simp
qed

lemma neighbor_loop_distinct:
  "neighbor_loop g a ns = Inr a' \<Longrightarrow>
   distinct (email a) \<and> distinct (username a) \<and> distinct (phone a) \<Longrightarrow>
   distinct (email a') \<and> distinct (username a') \<and> distinct (phone a')"
proof (induction ns arbitrary: a)
  case Nil
  then show ?case by simp
next
  case (Cons n ns)
  from neighbor_loop_Cons_Inr [OF Cons.prems(1)] obtain node_data direct a1 a2 where
    s1: "(if direct
          then associated_add a (dict_get node_data ''type'') (dict_get node_data ''label'')
          else Inr a) = Inr a1"
    and s2: "(if dict_get node_data ''type'' = PStr ''social_media''
              then (case neighbors g n of Inl e \<Rightarrow> Inl e | Inr ms \<Rightarrow> sm_loop g a1 ms)
              else Inr a1) = Inr a2"
    and rest: "neighbor_loop g a2 ns = Inr a'"
    by blast
  have d1: "distinct (email a1) \<and> distinct (username a1) \<and> distinct (phone a1)"
    using s1 Cons.prems(2) by (rule direct_step_distinct)
  have d2: "distinct (email a2) \<and> distinct (username a2) \<and> distinct (phone a2)"
    using s2 d1 by (rule sm_step_facts(2))
  from rest d2 show ?case by (rule Cons.IH)
qed

lemma neighbor_loop_two_hop:
  "neighbor_loop g a ns = Inr a' \<Longrightarrow> s \<in> set ns \<Longrightarrow>
   node_data_of g s = Inr sd \<Longrightarrow> dict_get sd ''type'' = PStr ''social_media'' \<Longrightarrow>
   neighbors g s = Inr ms \<Longrightarrow> m \<in> set ms \<Longrightarrow>
   node_data_of g m = Inr md \<Longrightarrow> dict_get md ''type'' = PStr ''email'' \<Longrightarrow>
   \<exists>x. py_hash (dict_get md ''label'') = Inr x \<and> x \<in> set (email a')"
proof (induction ns arbitrary: a)
  case Nil
  then show ?case by simp
next
  case (Cons n ns)
  from neighbor_loop_Cons_Inr [OF Cons.prems(1)] obtain node_data direct a1 a2 where
    nd: "node_data_of g n = Inr node_data"
    and s2: "(if dict_get node_data ''type'' = PStr ''social_media''
              then (case neighbors g n of Inl e \<Rightarrow> Inl e | Inr ms \<Rightarrow> sm_loop g a1 ms)
              else Inr a1) = Inr a2"
    and rest: "neighbor_loop g a2 ns = Inr a'"
    by blast
  show ?case
  proof (cases "s = n")
    case True
    with Cons.prems(3) nd have sd: "sd = node_data" by simp
    have ty: "dict_get node_data ''type'' = PStr ''social_media''"
      using Cons.prems(4) sd by simp
    have nb: "neighbors g n = Inr ms" using Cons.prems(5) True by simp
    from sm_step_facts(4) [OF s2 ty nb Cons.prems(6) Cons.prems(7) Cons.prems(8)]
    obtain x where x: "py_hash (dict_get md ''label'') = Inr x" and mem: "x \<in> set (email a2)"
      by blast
    from neighbor_loop_mono [OF rest] mem have "x \<in> set (email a')" by blast
    with x show ?thesis by blast
  next
    case False
    with Cons.prems(2) have "s \<in> set ns" by simp
    from Cons.IH [OF rest this Cons.prems(3) Cons.prems(4) Cons.prems(5) Cons.prems(6)
        Cons.prems(7) Cons.prems(8)]
    show ?thesis .
  qed
qed

lemma neighbor_loop_phone:
  "neighbor_loop g a ns = Inr a' \<Longrightarrow> y \<in> set (phone a') \<Longrightarrow> y \<notin> set (phone a) \<Longrightarrow>
   \<exists>n \<in> set ns. \<exists>nd. node_data_of g n = Inr nd \<and> dict_get nd ''type'' = PStr ''phone''
      \<and> py_hash (dict_get nd ''label'') = Inr y"
proof (induction ns arbitrary: a)
  case Nil
  then show ?case by simp
next
  case (Cons n ns)
  from neighbor_loop_Cons_Inr [OF Cons.prems(1)] obtain node_data direct a1 a2 where
    nd: "node_data_of g n = Inr node_data"
    and dir: "in_associated (dict_get node_data ''type'') = Inr direct"
    and s1: "(if direct
              then associated_add a (dict_get node_data ''type'') (dict_get node_data ''label'')
              else Inr a) = Inr a1"
    and s2: "(if dict_get node_data ''type'' = PStr ''social_media''
              then (case neighbors g n of Inl e \<Rightarrow> Inl e | Inr ms \<Rightarrow> sm_loop g a1 ms)
              else Inr a1) = Inr a2"
    and rest: "neighbor_loop g a2 ns = Inr a'"
    by blast
  have same: "phone a2 = phone a1" using s2 by (rule sm_step_facts(3))
  show ?case
  proof (cases "y \<in> set (phone a2)")
    case True
    with same have "y \<in> set (phone a1)" by simp
    from direct_step_phone [OF dir s1 this Cons.prems(3)] nd
    have "node_data_of g n = Inr node_data \<and> dict_get node_data ''type'' = PStr ''phone''
      \<and> py_hash (dict_get node_data ''label'') = Inr y" by simp
    then show ?thesis by auto
  next
    case False
    from Cons.IH [OF rest Cons.prems(2) False] show ?thesis by auto
  qed
qed

lemma neighbors_member:
  assumes "((u, v), d) \<in> set (edge_attrs g)" and "has_node g u"
  shows "\<exists>ns. neighbors g u = Inr ns \<and> v \<in> set ns"
proof -
  have "v \<in> (\<lambda>e. snd (fst e)) ` {e \<in> set (edge_attrs g). fst (fst e) = u}"
    using assms(1) by force
  then show ?thesis using assms(2) by (simp add: neighbors_def)
qed

lemma neighbors_edge:
  assumes "neighbors g u = Inr ns" and "v \<in> set ns"
  shows "\<exists>d. ((u, v), d) \<in> set (edge_attrs g)"
proof -
  from assms have "v \<in> (\<lambda>e. snd (fst e)) ` {e \<in> set (edge_attrs g). fst (fst e) = u}"
    by (auto simp: neighbors_def split: if_splits)
  then obtain e where "e \<in> set (edge_attrs g)" and "fst (fst e) = u" and "snd (fst e) = v"
    by auto
  then have "((u, v), snd e) \<in> set (edge_attrs g)" by (metis prod.collapse)
  then show ?thesis by blast
qed

lemma node_data_has_node: "node_data_of g n = Inr d \<Longrightarrow> has_node g n"
  by (auto simp: node_data_of_def has_node_iff split: option.splits)

lemma associated_add_new:
  assumes add: "associated_add a t l = Inr a'"
    and fld: "(tn = ''email'' \<and> f = email) \<or> (tn = ''username'' \<and> f = username)"
    and y: "y \<in> set (f a')" and fresh: "y \<notin> set (f a)"
  shows "t = PStr tn \<and> py_hash l = Inr y"
proof -
  from associated_add_result [OF add] obtain x where
    x: "py_hash l = Inr x"
    and a': "a' = (if t = PStr ''email'' then a\<lparr>email := set_add (email a) x\<rparr>
                   else if t = PStr ''username'' then a\<lparr>username := set_add (username a) x\<rparr>
                   else a\<lparr>phone := set_add (phone a) x\<rparr>)" by blast
  show ?thesis
  proof (cases "t = PStr ''email''")
    case True
    with a' have e: "email a' = set_add (email a) x" and u: "username a' = username a"
      by simp_all
    from fld show ?thesis
    proof
      assume "tn = ''email'' \<and> f = email"
      with y fresh e have "y = x" by (simp add: set_set_add)
      with x True \<open>tn = ''email'' \<and> f = email\<close> show ?thesis by simp
    next
      assume "tn = ''username'' \<and> f = username"
      with y fresh u show ?thesis by simp
    qed
  next
    case ne: False
    show ?thesis
    proof (cases "t = PStr ''username''")
      case True
      with a' ne have e: "email a' = email a" and u: "username a' = set_add (username a) x"
        by simp_all
      from fld show ?thesis
      proof
        assume "tn = ''email'' \<and> f = email"
        with y fresh e show ?thesis by simp
      next
        assume "tn = ''username'' \<and> f = username"
        with y fresh u have "y = x" by (simp add: set_set_add)
        with x True \<open>tn = ''username'' \<and> f = username\<close> show ?thesis by simp
      qed
    next
      case False
      with a' ne have "email a' = email a" and "username a' = username a" by simp_all
      with fld y fresh show ?thesis by auto
    qed
  qed
qed

lemma sm_loop_Cons_Inr:
  assumes "sm_loop g a (m # ms) = Inr a'"
  shows "\<exists>sm_data a1.
     node_data_of g m = Inr sm_data
     \<and> (if dict_get sm_data ''type'' = PStr ''email'' \<or> dict_get sm_data ''type'' = PStr ''username''
         then associated_add a (dict_get sm_data ''type'') (dict_get sm_data ''label'')
         else Inr a) = Inr a1
     \<and> sm_loop g a1 ms = Inr a'"
proof (cases "node_data_of g m")
  case (Inl e)
  with assms show ?thesis by simp
next
  case nd: (Inr sm_data)
  show ?thesis
  proof (cases "dict_get sm_data ''type'' = PStr ''email'' \<or> dict_get sm_data ''type'' = PStr ''username''")
    case True
    show ?thesis
    proof (cases "associated_add a (dict_get sm_data ''type'') (dict_get sm_data ''label'')")
      case (Inl e)
      with assms nd True show ?thesis by (simp add: Let_def)
    next
      case (Inr a1)
      with assms nd True have "sm_loop g a1 ms = Inr a'" by (simp add: Let_def)
      with nd True Inr show ?thesis by simp
    qed
  next
    case False
    with assms nd have "sm_loop g a ms = Inr a'" by (simp add: Let_def)
    with nd False show ?thesis by simp
  qed
qed

lemma sm_loop_sound:
  assumes fld: "(tn = ''email'' \<and> f = email) \<or> (tn = ''username'' \<and> f = username)"
  shows "sm_loop g a ms = Inr a' \<Longrightarrow> y \<in> set (f a') \<Longrightarrow> y \<notin> set (f a) \<Longrightarrow>
         \<exists>m \<in> set ms. \<exists>md. node_data_of g m = Inr md \<and> dict_get md ''type'' = PStr tn
            \<and> py_hash (dict_get md ''label'') = Inr y"
proof (induction ms arbitrary: a)
  case Nil
  then show ?case by simp
next
  case (Cons m ms)
  from sm_loop_Cons_Inr [OF Cons.prems(1)] obtain sm_data a1 where
    nd: "node_data_of g m = Inr sm_data"
    and s: "(if dict_get sm_data ''type'' = PStr ''email''
                \<or> dict_get sm_data ''type'' = PStr ''username''
             then associated_add a (dict_get sm_data ''type'') (dict_get sm_data ''label'')
             else Inr a) = Inr a1"
    and rest: "sm_loop g a1 ms = Inr a'"
    by blast
  show ?case
  proof (cases "y \<in> set (f a1)")
    case True
    have cond: "dict_get sm_data ''type'' = PStr ''email''
                \<or> dict_get sm_data ''type'' = PStr ''username''"
    proof (rule ccontr)
      assume "\<not> ?thesis"
      with s have "a1 = a" by simp
      with True Cons.prems(3) show False by simp
    qed
    with s have "associated_add a (dict_get sm_data ''type'') (dict_get sm_data ''label'') = Inr a1"
      by simp
    from associated_add_new [OF this fld True Cons.prems(3)] nd
    have "node_data_of g m = Inr sm_data \<and> dict_get sm_data ''type'' = PStr tn
            \<and> py_hash (dict_get sm_data ''label'') = Inr y" by simp
    then show ?thesis by auto
  next
    case False
    from Cons.IH [OF rest Cons.prems(2) False] show ?thesis by auto
  qed
qed

lemma direct_step_new:
  assumes "(if direct then associated_add a t l else Inr a) = Inr a1"
    and "(tn = ''email'' \<and> f = email) \<or> (tn = ''username'' \<and> f = username)"
    and "y \<in> set (f a1)" and "y \<notin> set (f a)"
  shows "t = PStr tn \<and> py_hash l = Inr y"
proof (cases direct)
  case True
  with assms(1) have "associated_add a t l = Inr a1" by simp
  then show ?thesis using assms(2-4) by (rule associated_add_new)
next
  case False
  with assms(1,3,4) show ?thesis by simp
qed

lemma sm_step_new:
  assumes "(if t = PStr ''social_media''
            then (case neighbors g n of Inl e \<Rightarrow> Inl e | Inr ms \<Rightarrow> sm_loop g a1 ms)
            else Inr a1) = Inr a2"
    and fld: "(tn = ''email'' \<and> f = email) \<or> (tn = ''username'' \<and> f = username)"
    and y: "y \<in> set (f a2)" and fresh: "y \<notin> set (f a1)"
  shows "t = PStr ''social_media''
         \<and> (\<exists>ms. neighbors g n = Inr ms
               \<and> (\<exists>m \<in> set ms. \<exists>md. node_data_of g m = Inr md
                      \<and> dict_get md ''type'' = PStr tn
                      \<and> py_hash (dict_get md ''label'') = Inr y))"
proof (cases "t = PStr ''social_media''")
  case True
  show ?thesis
  proof (cases "neighbors g n")
    case (Inl e)
    with assms(1) True show ?thesis by simp
  next
    case (Inr ms)
    with assms(1) True have loop: "sm_loop g a1 ms = Inr a2" by simp
    from sm_loop_sound [OF fld loop y fresh] True Inr show ?thesis by simp
  qed
next
  case False
  with assms(1) have "a2 = a1" by simp
  with y fresh show ?thesis by simp
qed

lemma neighbor_loop_sound:
  assumes fld: "(tn = ''email'' \<and> f = email) \<or> (tn = ''username'' \<and> f = username)"
  shows "neighbor_loop g a ns = Inr a' \<Longrightarrow> y \<in> set (f a') \<Longrightarrow> y \<notin> set (f a) \<Longrightarrow>
         (\<exists>n \<in> set ns. \<exists>nd. node_data_of g n = Inr nd \<and> dict_get nd ''type'' = PStr tn
             \<and> py_hash (dict_get nd ''label'') = Inr y)
         \<or> (\<exists>s \<in> set ns. \<exists>sd ms. node_data_of g s = Inr sd
               \<and> dict_get sd ''type'' = PStr ''social_media'' \<and> neighbors g s = Inr ms
               \<and> (\<exists>m \<in> set ms. \<exists>md. node_data_of g m = Inr md
                      \<and> dict_get md ''type'' = PStr tn
                      \<and> py_hash (dict_get md ''label'') = Inr y))"
proof (induction ns arbitrary: a)
  case Nil
  then show ?case by simp
next
  case (Cons n ns)
  from neighbor_loop_Cons_Inr [OF Cons.prems(1)] obtain node_data direct a1 a2 where
    nd: "node_data_of g n = Inr node_data"
    and s1: "(if direct
              then associated_add a (dict_get node_data ''type'') (dict_get node_data ''label'')
              else Inr a) = Inr a1"
    and s2: "(if dict_get node_data ''type'' = PStr ''social_media''
              then (case neighbors g n of Inl e \<Rightarrow> Inl e | Inr ms \<Rightarrow> sm_loop g a1 ms)
              else Inr a1) = Inr a2"
    and rest: "neighbor_loop g a2 ns = Inr a'"
    by blast
  show ?case
  proof (cases "y \<in> set (f a2)")
    case in2: True
    show ?thesis
    proof (cases "y \<in> set (f a1)")
      case True
      from direct_step_new [OF s1 fld True Cons.prems(3)] nd
      have "node_data_of g n = Inr node_data \<and> dict_get node_data ''type'' = PStr tn
            \<and> py_hash (dict_get node_data ''label'') = Inr y" by simp
      then have "\<exists>n' \<in> set (n # ns). \<exists>nd. node_data_of g n' = Inr nd
             \<and> dict_get nd ''type'' = PStr tn \<and> py_hash (dict_get nd ''label'') = Inr y"
        by auto
      then show ?thesis by (rule disjI1)
    next
      case False
      from sm_step_new [OF s2 fld in2 False] nd
      have "node_data_of g n = Inr node_data
            \<and> dict_get node_data ''type'' = PStr ''social_media''
            \<and> (\<exists>ms. neighbors g n = Inr ms
                 \<and> (\<exists>m \<in> set ms. \<exists>md. node_data_of g m = Inr md
                      \<and> dict_get md ''type'' = PStr tn
                      \<and> py_hash (dict_get md ''label'') = Inr y))" by simp
      then have "\<exists>s \<in> set (n # ns). \<exists>sd ms. node_data_of g s = Inr sd
               \<and> dict_get sd ''type'' = PStr ''social_media'' \<and> neighbors g s = Inr ms
               \<and> (\<exists>m \<in> set ms. \<exists>md. node_data_of g m = Inr md
                      \<and> dict_get md ''type'' = PStr tn
                      \<and> py_hash (dict_get md ''label'') = Inr y)"
        by auto
      then show ?thesis by (rule disjI2)
    qed
  next
    case False
    from Cons.IH [OF rest Cons.prems(2) False] show ?thesis
    proof
      assume "\<exists>n \<in> set ns. \<exists>nd. node_data_of g n = Inr nd \<and> dict_get nd ''type'' = PStr tn
             \<and> py_hash (dict_get nd ''label'') = Inr y"
      then have "\<exists>n' \<in> set (n # ns). \<exists>nd. node_data_of g n' = Inr nd
             \<and> dict_get nd ''type'' = PStr tn \<and> py_hash (dict_get nd ''label'') = Inr y"
        by auto
      then show ?thesis by (rule disjI1)
    next
      assume "\<exists>s \<in> set ns. \<exists>sd ms. node_data_of g s = Inr sd
               \<and> dict_get sd ''type'' = PStr ''social_media'' \<and> neighbors g s = Inr ms
               \<and> (\<exists>m \<in> set ms. \<exists>md. node_data_of g m = Inr md
                      \<and> dict_get md ''type'' = PStr tn
                      \<and> py_hash (dict_get md ''label'') = Inr y)"
      then have "\<exists>s \<in> set (n # ns). \<exists>sd ms. node_data_of g s = Inr sd
               \<and> dict_get sd ''type'' = PStr ''social_media'' \<and> neighbors g s = Inr ms
               \<and> (\<exists>m \<in> set ms. \<exists>md. node_data_of g m = Inr md
                      \<and> dict_get md ''type'' = PStr tn
                      \<and> py_hash (dict_get md ''label'') = Inr y)"
        by auto
      then show ?thesis by (rule disjI2)
    qed
  qed
qed

lemma collected_origin:
  assumes fld: "(tn = ''email'' \<and> f = email) \<or> (tn = ''username'' \<and> f = username)"
    and nb: "neighbors g p = Inr ns"
    and loop: "neighbor_loop g \<lparr>email = [], username = [], phone = []\<rparr> ns = Inr a"
    and y: "y \<in> set (f a)"
  shows "(\<exists>n nd d. ((p, n), d) \<in> set (edge_attrs g) \<and> node_data_of g n = Inr nd
            \<and> dict_get nd ''type'' = PStr tn \<and> py_hash (dict_get nd ''label'') = Inr y)
         \<or> (\<exists>s sd d m md d'. ((p, s), d) \<in> set (edge_attrs g) \<and> node_data_of g s = Inr sd
               \<and> dict_get sd ''type'' = PStr ''social_media''
               \<and> ((s, m), d') \<in> set (edge_attrs g) \<and> node_data_of g m = Inr md
               \<and> dict_get md ''type'' = PStr tn \<and> py_hash (dict_get md ''label'') = Inr y)"
proof -
  have fresh: "y \<notin> set (f \<lparr>email = [], username = [], phone = []\<rparr>)"
    using fld by auto
  from neighbor_loop_sound [OF fld loop y fresh] show ?thesis
  proof
    assume "\<exists>n \<in> set ns. \<exists>nd. node_data_of g n = Inr nd \<and> dict_get nd ''type'' = PStr tn
             \<and> py_hash (dict_get nd ''label'') = Inr y"
    then obtain n nd where n: "n \<in> set ns" and nd: "node_data_of g n = Inr nd"
      and ty: "dict_get nd ''type'' = PStr tn"
      and l: "py_hash (dict_get nd ''label'') = Inr y" by blast
    from neighbors_edge [OF nb n] obtain d where "((p, n), d) \<in> set (edge_attrs g)" by blast
    with nd ty l have "\<exists>n nd d. ((p, n), d) \<in> set (edge_attrs g) \<and> node_data_of g n = Inr nd
            \<and> dict_get nd ''type'' = PStr tn \<and> py_hash (dict_get nd ''label'') = Inr y"
      by blast
    then show ?thesis by (rule disjI1)
  next
    assume "\<exists>s \<in> set ns. \<exists>sd ms. node_data_of g s = Inr sd
               \<and> dict_get sd ''type'' = PStr ''social_media'' \<and> neighbors g s = Inr ms
               \<and> (\<exists>m \<in> set ms. \<exists>md. node_data_of g m = Inr md
                      \<and> dict_get md ''type'' = PStr tn
                      \<and> py_hash (dict_get md ''label'') = Inr y)"
    then obtain s sd ms m md where s: "s \<in> set ns" and sd: "node_data_of g s = Inr sd"
      and st: "dict_get sd ''type'' = PStr ''social_media''"
      and nbs: "neighbors g s = Inr ms" and m: "m \<in> set ms"
      and md: "node_data_of g m = Inr md" and mt: "dict_get md ''type'' = PStr tn"
      and l: "py_hash (dict_get md ''label'') = Inr y" by blast
    from neighbors_edge [OF nb s] obtain d where e1: "((p, s), d) \<in> set (edge_attrs g)" by blast
    from neighbors_edge [OF nbs m] obtain d' where e2: "((s, m), d') \<in> set (edge_attrs g)"
      by blast
    from e1 sd st e2 md mt l
    have "\<exists>s sd d m md d'. ((p, s), d) \<in> set (edge_attrs g) \<and> node_data_of g s = Inr sd
               \<and> dict_get sd ''type'' = PStr ''social_media''
               \<and> ((s, m), d') \<in> set (edge_attrs g) \<and> node_data_of g m = Inr md
               \<and> dict_get md ''type'' = PStr tn \<and> py_hash (dict_get md ''label'') = Inr y"
      by blast
    then show ?thesis by (rule disjI2)
  qed
qed

text \<open>
  Claim C9. Let \<^verbatim>\<open>get_person_details\<close> return for the selected node \<open>p\<close>, and let the graph
  have an edge from \<open>p\<close> to a node of type \<^verbatim>\<open>social_media\<close> and an edge from that node to a
  node of type \<^verbatim>\<open>email\<close>. Then the label of the email node is in the returned email
  set. The three returned lists have no repeated element. Every element of the email
  list is the label of a node of type \<^verbatim>\<open>email\<close> that is a direct neighbour of \<open>p\<close> or a
  neighbour of a direct neighbour of type \<^verbatim>\<open>social_media\<close>; the same holds for the
  username list and the type \<^verbatim>\<open>username\<close>. Every element of the phone list is the label
  of a direct neighbour of type \<^verbatim>\<open>phone\<close>. So the second hop collects email and username
  labels only, each into its own set.
\<close>

theorem two_hop_email_collected:
  assumes "get_person_details g p = Inr a"
    and "((p, s), d1) \<in> set (edge_attrs g)" and "((s, m), d2) \<in> set (edge_attrs g)"
    and "node_data_of g s = Inr sd" and "dict_get sd ''type'' = PStr ''social_media''"
    and "node_data_of g m = Inr md" and "dict_get md ''type'' = PStr ''email''"
  shows "(\<exists>x. py_hash (dict_get md ''label'') = Inr x \<and> x \<in> set (email a))
         \<and> distinct (email a) \<and> distinct (username a) \<and> distinct (phone a)
         \<and> (\<forall>y \<in> set (email a).
               (\<exists>n nd d. ((p, n), d) \<in> set (edge_attrs g) \<and> node_data_of g n = Inr nd
                   \<and> dict_get nd ''type'' = PStr ''email''
                   \<and> py_hash (dict_get nd ''label'') = Inr y)
               \<or> (\<exists>s sd d m md d'. ((p, s), d) \<in> set (edge_attrs g)
                     \<and> node_data_of g s = Inr sd
                     \<and> dict_get sd ''type'' = PStr ''social_media''
                     \<and> ((s, m), d') \<in> set (edge_attrs g) \<and> node_data_of g m = Inr md
                     \<and> dict_get md ''type'' = PStr ''email''
                     \<and> py_hash (dict_get md ''label'') = Inr y))
         \<and> (\<forall>y \<in> set (username a).
               (\<exists>n nd d. ((p, n), d) \<in> set (edge_attrs g) \<and> node_data_of g n = Inr nd
                   \<and> dict_get nd ''type'' = PStr ''username''
                   \<and> py_hash (dict_get nd ''label'') = Inr y)
               \<or> (\<exists>s sd d m md d'. ((p, s), d) \<in> set (edge_attrs g)
                     \<and> node_data_of g s = Inr sd
                     \<and> dict_get sd ''type'' = PStr ''social_media''
                     \<and> ((s, m), d') \<in> set (edge_attrs g) \<and> node_data_of g m = Inr md
                     \<and> dict_get md ''type'' = PStr ''username''
                     \<and> py_hash (dict_get md ''label'') = Inr y))
         \<and> (\<forall>y \<in> set (phone a). \<exists>n nd d. ((p, n), d) \<in> set (edge_attrs g)
               \<and> node_data_of g n = Inr nd \<and> dict_get nd ''type'' = PStr ''phone''
               \<and> py_hash (dict_get nd ''label'') = Inr y)"
proof -
  let ?a0 = "\<lparr>email = [], username = [], phone = []\<rparr>"
  from assms(1) obtain ns where nb: "neighbors g p = Inr ns"
    and loop: "neighbor_loop g ?a0 ns = Inr a"
    by (auto simp: get_person_details_def split: sum.splits)
  have hp: "has_node g p" using nb by (auto simp: neighbors_def split: if_splits)
  from neighbors_member [OF assms(2) hp] nb have s: "s \<in> set ns" by auto
  from neighbors_member [OF assms(3) node_data_has_node [OF assms(4)]]
  obtain ms where nbs: "neighbors g s = Inr ms" and m: "m \<in> set ms" by blast
  have hop: "\<exists>x. py_hash (dict_get md ''label'') = Inr x \<and> x \<in> set (email a)"
    using loop s assms(4) assms(5) nbs m assms(6) assms(7) by (rule neighbor_loop_two_hop)
  have dist: "distinct (email a) \<and> distinct (username a) \<and> distinct (phone a)"
    using loop by (rule neighbor_loop_distinct) simp
  have fe: "(''email'' = ''email'' \<and> email = email)
            \<or> (''email'' = ''username'' \<and> email = username)" by simp
  have fu: "(''username'' = ''email'' \<and> username = email)
            \<or> (''username'' = ''username'' \<and> username = username)" by simp
  have em: "\<forall>y \<in> set (email a).
               (\<exists>n nd d. ((p, n), d) \<in> set (edge_attrs g) \<and> node_data_of g n = Inr nd
                   \<and> dict_get nd ''type'' = PStr ''email''
                   \<and> py_hash (dict_get nd ''label'') = Inr y)
               \<or> (\<exists>s sd d m md d'. ((p, s), d) \<in> set (edge_attrs g)
                     \<and> node_data_of g s = Inr sd
                     \<and> dict_get sd ''type'' = PStr ''social_media''
                     \<and> ((s, m), d') \<in> set (edge_attrs g) \<and> node_data_of g m = Inr md
                     \<and> dict_get md ''type'' = PStr ''email''
                     \<and> py_hash (dict_get md ''label'') = Inr y)"
    using collected_origin [OF fe nb loop] by (rule ballI)
  have un: "\<forall>y \<in> set (username a).
               (\<exists>n nd d. ((p, n), d) \<in> set (edge_attrs g) \<and> node_data_of g n = Inr nd
                   \<and> dict_get nd ''type'' = PStr ''username''
                   \<and> py_hash (dict_get nd ''label'') = Inr y)
               \<or> (\<exists>s sd d m md d'. ((p, s), d) \<in> set (edge_attrs g)
                     \<and> node_data_of g s = Inr sd
                     \<and> dict_get sd ''type'' = PStr ''social_media''
                     \<and> ((s, m), d') \<in> set (edge_attrs g) \<and> node_data_of g m = Inr md
                     \<and> dict_get md ''type'' = PStr ''username''
                     \<and> py_hash (dict_get md ''label'') = Inr y)"
    using collected_origin [OF fu nb loop] by (rule ballI)
  have ph: "\<forall>y \<in> set (phone a). \<exists>n nd d. ((p, n), d) \<in> set (edge_attrs g)
               \<and> node_data_of g n = Inr nd \<and> dict_get nd ''type'' = PStr ''phone''
               \<and> py_hash (dict_get nd ''label'') = Inr y"
  proof
    fix y assume y: "y \<in> set (phone a)"
    have "y \<notin> set (phone ?a0)" by simp
    from neighbor_loop_phone [OF loop y this]
    obtain n nd where n: "n \<in> set ns" and nd: "node_data_of g n = Inr nd"
      and ty: "dict_get nd ''type'' = PStr ''phone''"
      and l: "py_hash (dict_get nd ''label'') = Inr y" by blast
    from neighbors_edge [OF nb n] obtain d where "((p, n), d) \<in> set (edge_attrs g)" by blast
    with nd ty l show "\<exists>n nd d. ((p, n), d) \<in> set (edge_attrs g)
               \<and> node_data_of g n = Inr nd \<and> dict_get nd ''type'' = PStr ''phone''
               \<and> py_hash (dict_get nd ''label'') = Inr y" by blast
  qed
  show ?thesis
    by (intro conjI hop em un ph dist [THEN conjunct1] dist [THEN conjunct2, THEN conjunct1]
        dist [THEN conjunct2, THEN conjunct2])
qed

theorem two_hop_email_collected_witness:
  "get_person_details
     \<lparr>node_attrs =
        [(IdStr ''p1'', [(''id'', PStr ''p1''), (''type'', PStr ''person''), (''label'', PStr ''John Doe'')]),
         (IdStr ''sm1'', [(''id'', PStr ''sm1''), (''type'', PStr ''social_media''), (''label'', PStr ''github'')]),
         (IdStr ''e1'', [(''id'', PStr ''e1''), (''type'', PStr ''email''), (''label'', PStr ''jd@example.com'')]),
         (IdStr ''u1'', [(''id'', PStr ''u1''), (''type'', PStr ''username''), (''label'', PStr ''jdoe'')]),
         (IdStr ''ph1'', [(''id'', PStr ''ph1''), (''type'', PStr ''phone''), (''label'', PStr ''555'')]),
         (IdStr ''c1'', [(''id'', PStr ''c1''), (''type'', PStr ''company''), (''label'', PStr ''Google'')])],
      edge_attrs =
        [((IdStr ''p1'', IdStr ''sm1''), [(''relationship'', PStr ''has account'')]),
         ((IdStr ''sm1'', IdStr ''e1''), [(''relationship'', PStr ''registered with'')]),
         ((IdStr ''sm1'', IdStr ''u1''), [(''relationship'', PStr ''handle'')]),
         ((IdStr ''sm1'', IdStr ''ph1''), [(''relationship'', PStr ''registered with'')]),
         ((IdStr ''sm1'', IdStr ''c1''), [(''relationship'', PStr ''member of'')])]\<rparr>
     (IdStr ''p1'')
   = Inr \<lparr>email = [HStr ''jd@example.com''], username = [HStr ''jdoe''], phone = []\<rparr>
   \<and> (\<exists>x. py_hash (dict_get [(''id'', PStr ''e1''), (''type'', PStr ''email''),
                                (''label'', PStr ''jd@example.com'')] ''label'') = Inr x
          \<and> x \<in> set (email \<lparr>email = [HStr ''jd@example.com''], username = [HStr ''jdoe''],
                               phone = []\<rparr>))"
proof -
  let ?sd = "[(''id'', PStr ''sm1''), (''type'', PStr ''social_media''), (''label'', PStr ''github'')]"
  let ?md = "[(''id'', PStr ''e1''), (''type'', PStr ''email''), (''label'', PStr ''jd@example.com'')]"
  let ?g = "\<lparr>node_attrs =
        [(IdStr ''p1'', [(''id'', PStr ''p1''), (''type'', PStr ''person''), (''label'', PStr ''John Doe'')]),
         (IdStr ''sm1'', ?sd),
         (IdStr ''e1'', ?md),
         (IdStr ''u1'', [(''id'', PStr ''u1''), (''type'', PStr ''username''), (''label'', PStr ''jdoe'')]),
         (IdStr ''ph1'', [(''id'', PStr ''ph1''), (''type'', PStr ''phone''), (''label'', PStr ''555'')]),
         (IdStr ''c1'', [(''id'', PStr ''c1''), (''type'', PStr ''company''), (''label'', PStr ''Google'')])],
      edge_attrs =
        [((IdStr ''p1'', IdStr ''sm1''), [(''relationship'', PStr ''has account'')]),
         ((IdStr ''sm1'', IdStr ''e1''), [(''relationship'', PStr ''registered with'')]),
         ((IdStr ''sm1'', IdStr ''u1''), [(''relationship'', PStr ''handle'')]),
         ((IdStr ''sm1'', IdStr ''ph1''), [(''relationship'', PStr ''registered with'')]),
         ((IdStr ''sm1'', IdStr ''c1''), [(''relationship'', PStr ''member of'')])]\<rparr>"
  let ?a = "\<lparr>email = [HStr ''jd@example.com''], username = [HStr ''jdoe''], phone = []\<rparr>"
  have run: "get_person_details ?g (IdStr ''p1'') = Inr ?a"
    by (simp add: get_person_details_def neighbors_def has_node_def node_data_of_def
        dict_get_def in_associated_def associated_add_def set_add_def)
  have e1: "((IdStr ''p1'', IdStr ''sm1''), [(''relationship'', PStr ''has account'')])
              \<in> set (edge_attrs ?g)" by simp
  have e2: "((IdStr ''sm1'', IdStr ''e1''), [(''relationship'', PStr ''registered with'')])
              \<in> set (edge_attrs ?g)" by simp
  have n1: "node_data_of ?g (IdStr ''sm1'') = Inr ?sd" by (simp add: node_data_of_def)
  have t1: "dict_get ?sd ''type'' = PStr ''social_media''" by (simp add: dict_get_def)
  have n2: "node_data_of ?g (IdStr ''e1'') = Inr ?md" by (simp add: node_data_of_def)
  have t2: "dict_get ?md ''type'' = PStr ''email''" by (simp add: dict_get_def)
  from two_hop_email_collected [OF run e1 e2 n1 t1 n2 t2]
  have "\<exists>x. py_hash (dict_get ?md ''label'') = Inr x \<and> x \<in> set (email ?a)"
    by (rule conjunct1)
  with run show ?thesis by (rule conjI)
qed

end
